theory Spec2Isabelle
  imports Complex_Main "HOL-Library.Word" "HOL-Library.Sublist"
begin

unbundle bit_operations_syntax

section \<open>Compile-time constants\<close>

text \<open>
  The constants of \<^verbatim>\<open>BungholeAudioDriver.c\<close>. The ring functions use them in
  \<^verbatim>\<open>uint64_t\<close> arithmetic, so they are 64-bit words here.
\<close>

type_synonym u64 = "64 word"
type_synonym u32 = "32 word"
type_synonym u16 = "16 word"
type_synonym u8 = "8 word"

definition NUM_CHANNELS :: u64 where
  "NUM_CHANNELS = 2"

definition BITS_PER_CHANNEL :: u64 where
  "BITS_PER_CHANNEL = 32"

definition BYTES_PER_FRAME :: u64 where
  "BYTES_PER_FRAME = NUM_CHANNELS * (BITS_PER_CHANNEL div 8)"

definition RING_CAPACITY :: u64 where
  "RING_CAPACITY = 8192"

definition SIZEOF_FLOAT :: nat where
  "SIZEOF_FLOAT = 4"



definition OPUS_FRAME_SIZE :: nat where
  "OPUS_FRAME_SIZE = 960"

definition OPUS_MAX_PACKET :: int where
  "OPUS_MAX_PACKET = 1500"

subsection \<open>Object IDs\<close>

definition kObjectID_Plugin :: u32 where
  "kObjectID_Plugin = 1"

definition kObjectID_OutputDevice :: u32 where
  "kObjectID_OutputDevice = 2"

definition kObjectID_InputDevice :: u32 where
  "kObjectID_InputDevice = 3"

definition kObjectID_OutputStream :: u32 where
  "kObjectID_OutputStream = 4"

definition kObjectID_InputStream :: u32 where
  "kObjectID_InputStream = 5"

definition kObjectID_OutputVolume :: u32 where
  "kObjectID_OutputVolume = 6"

definition kObjectID_InputVolume :: u32 where
  "kObjectID_InputVolume = 7"

definition is_output_device :: "u32 \<Rightarrow> bool" where
  "is_output_device oid = (oid = kObjectID_OutputDevice)"

definition is_input_device :: "u32 \<Rightarrow> bool" where
  "is_input_device oid = (oid = kObjectID_InputDevice)"

definition is_device :: "u32 \<Rightarrow> bool" where
  "is_device oid = (is_output_device oid \<or> is_input_device oid)"

definition is_stream :: "u32 \<Rightarrow> bool" where
  "is_stream oid = (oid = kObjectID_OutputStream \<or> oid = kObjectID_InputStream)"

definition is_volume :: "u32 \<Rightarrow> bool" where
  "is_volume oid = (oid = kObjectID_OutputVolume \<or> oid = kObjectID_InputVolume)"

section \<open>Sample memory\<close>

text \<open>
  The ring only moves samples with \<^verbatim>\<open>memcpy\<close> and \<^verbatim>\<open>memset\<close>, so a sample is
  the 32-bit pattern of a \<^verbatim>\<open>float\<close>; the pattern 0 is the float 0.0. An array of
  floats is a list of samples. \<open>memcpy dst doff src soff n\<close> is the C call
  \<^verbatim>\<open>memcpy(dst + doff, src + soff, n)\<close> with \<open>n\<close> in bytes and the offsets in
  floats; \<open>memset_zero dst doff n\<close> is \<^verbatim>\<open>memset(dst + doff, 0, n)\<close>. Both leave
  every float outside the target range as it was.
\<close>

type_synonym sample = "32 word"

definition memcpy :: "sample list \<Rightarrow> nat \<Rightarrow> sample list \<Rightarrow> nat \<Rightarrow> nat \<Rightarrow> sample list" where
  "memcpy dst doff src soff n =
     map (\<lambda>i. if doff \<le> i \<and> i < doff + n div SIZEOF_FLOAT
              then src ! (soff + (i - doff)) else dst ! i)
         [0..<length dst]"

definition memset_zero :: "sample list \<Rightarrow> nat \<Rightarrow> nat \<Rightarrow> sample list" where
  "memset_zero dst doff n =
     map (\<lambda>i. if doff \<le> i \<and> i < doff + n div SIZEOF_FLOAT then 0 else dst ! i)
         [0..<length dst]"

section \<open>Lock-free SPSC ring buffer\<close>

record RingBuffer =
  samples :: "sample list"
  head :: u64
  tail :: u64

definition ring_init :: "RingBuffer \<Rightarrow> RingBuffer" where
  "ring_init rb =
     rb\<lparr>samples := replicate (unat (RING_CAPACITY * NUM_CHANNELS)) 0, head := 0, tail := 0\<rparr>"

definition ring_available :: "RingBuffer \<Rightarrow> u64" where
  "ring_available rb = (let h = head rb; t = tail rb in h - t)"

text \<open>
  \<open>ring_write rb src count\<close> returns the updated ring and the number of frames written.
\<close>

definition ring_write :: "RingBuffer \<Rightarrow> sample list \<Rightarrow> u64 \<Rightarrow> RingBuffer \<times> u64" where
  "ring_write rb src count0 =
     (let h = head rb;
          t = tail rb;
          free = RING_CAPACITY - (h - t);
          count = (if count0 > free then free else count0)
      in if count = 0 then (rb, 0)
         else
           let idx = h mod RING_CAPACITY;
               first0 = RING_CAPACITY - idx;
               first = (if first0 > count then count else first0);
               s1 = memcpy (samples rb) (unat (idx * NUM_CHANNELS)) src 0
                      (unat (first * BYTES_PER_FRAME));
               s2 = (if count > first
                     then memcpy s1 0 src (unat (first * NUM_CHANNELS))
                            (unat ((count - first) * BYTES_PER_FRAME))
                     else s1)
           in (rb\<lparr>samples := s2, head := h + count\<rparr>, count))"

text \<open>
  \<open>ring_read rb dst count\<close> returns the updated ring, the updated destination buffer
  and the number of frames read.
\<close>

definition ring_read :: "RingBuffer \<Rightarrow> sample list \<Rightarrow> u64 \<Rightarrow> RingBuffer \<times> sample list \<times> u64" where
  "ring_read rb dst count0 =
     (let h = head rb;
          t = tail rb;
          avail = h - t;
          count = (if count0 > avail then avail else count0)
      in if count = 0 then (rb, dst, 0)
         else
           let idx = t mod RING_CAPACITY;
               first0 = RING_CAPACITY - idx;
               first = (if first0 > count then count else first0);
               d1 = memcpy dst 0 (samples rb) (unat (idx * NUM_CHANNELS))
                      (unat (first * BYTES_PER_FRAME));
               d2 = (if count > first
                     then memcpy d1 (unat (first * NUM_CHANNELS)) (samples rb) 0
                            (unat ((count - first) * BYTES_PER_FRAME))
                     else d1)
           in (rb\<lparr>tail := t + count\<rparr>, d2, count))"

text \<open>
  The abstract queue a ring holds: the samples of the frames from \<open>tail\<close> up to
  \<open>head\<close>, oldest first. Frame number \<open>q\<close> after the tail lives in slot
  \<open>(tail + q) mod 8192\<close>; sample \<open>j\<close> of the queue is channel \<open>j mod 2\<close> of frame
  \<open>j div 2\<close>.
\<close>

definition ring_contents :: "RingBuffer \<Rightarrow> sample list" where
  "ring_contents rb =
     map (\<lambda>j. samples rb ! (2 * ((unat (tail rb) + j div 2) mod 8192) + j mod 2))
         [0..<2 * unat (head rb - tail rb)]"

text \<open>
  A well-formed ring: the array has its declared size and the wrap-safe occupancy
  \<open>head - tail\<close> (64-bit subtraction) is at most the capacity.
\<close>

definition ring_ok :: "RingBuffer \<Rightarrow> bool" where
  "ring_ok rb \<longleftrightarrow> length (samples rb) = 16384 \<and> head rb - tail rb \<le> RING_CAPACITY"

text \<open>
  The invariant of the specification, read over the integers:
  \<open>tail \<le> head \<le> tail + C_r\<close>.
\<close>

definition ring_inv :: "RingBuffer \<Rightarrow> bool" where
  "ring_inv rb \<longleftrightarrow>
     unat (tail rb) \<le> unat (head rb) \<and> unat (head rb) \<le> unat (tail rb) + unat RING_CAPACITY"

text \<open>A ring whose two indices have reached the last 64-bit value.\<close>

definition ring_at_wrap :: RingBuffer where
  "ring_at_wrap =
     \<lparr>samples = replicate 16384 0, head = 18446744073709551615, tail = 18446744073709551615\<rparr>"

subsection \<open>Sequences of ring operations\<close>

text \<open>
  One producer call or one consumer call. \<open>Write src k\<close> offers the first \<open>k\<close> frames
  of \<open>src\<close>; \<open>Read dst k\<close> asks for \<open>k\<close> frames into \<open>dst\<close>. A call is well formed
  when its buffer holds the \<open>k\<close> frames. \<open>run_ops\<close> threads the ring through a
  sequence of calls and records the frames the writes accepted and the frames the
  reads returned.
\<close>

datatype ring_op = Write "sample list" u64 | Read "sample list" u64

fun op_ok :: "ring_op \<Rightarrow> bool" where
  "op_ok (Write src k) = (2 * unat k \<le> length src)"
| "op_ok (Read dst k) = (2 * unat k \<le> length dst)"

fun ring_step :: "RingBuffer \<times> sample list \<times> sample list \<Rightarrow> ring_op
    \<Rightarrow> RingBuffer \<times> sample list \<times> sample list" where
  "ring_step (rb, accepted, delivered) (Write src k) =
     (case ring_write rb src k of
        (rb', written) \<Rightarrow> (rb', accepted @ take (2 * unat written) src, delivered))"
| "ring_step (rb, accepted, delivered) (Read dst k) =
     (case ring_read rb dst k of
        (rb', dst', got) \<Rightarrow> (rb', accepted, delivered @ take (2 * unat got) dst'))"

definition run_ops :: "RingBuffer \<Rightarrow> ring_op list \<Rightarrow> RingBuffer \<times> sample list \<times> sample list" where
  "run_ops rb ops = foldl ring_step (rb, [], []) ops"

text \<open>
  The queue discipline over a run that started with the ring holding \<open>c0\<close>: what was
  in the ring plus what the writes accepted is what the reads returned followed by what
  the ring still holds.
\<close>

definition fifo_state :: "sample list \<Rightarrow> RingBuffer \<times> sample list \<times> sample list \<Rightarrow> bool" where
  "fifo_state c0 st \<longleftrightarrow>
     ring_ok (fst st) \<and> c0 @ fst (snd st) = snd (snd st) @ ring_contents (fst st)"

text \<open>
  The bounded queue as the specification words it, on frames of two samples: a write
  of \<open>k\<close> frames appends the first \<open>min k free\<close> frames of its buffer, with
  \<open>free = C_r - available\<close>, and drops the excess; a read of \<open>k\<close> frames removes and
  returns the oldest \<open>min k available\<close> frames. The state is the queue, the frames
  accepted so far and the frames delivered so far.
\<close>

fun spec_queue_step :: "sample list \<times> sample list \<times> sample list \<Rightarrow> ring_op
    \<Rightarrow> sample list \<times> sample list \<times> sample list" where
  "spec_queue_step (q, accepted, delivered) (Write src k) =
     (let free = 8192 - length q div 2;
          n = min (unat k) free
      in (q @ take (2 * n) src, accepted @ take (2 * n) src, delivered))"
| "spec_queue_step (q, accepted, delivered) (Read dst k) =
     (let available = length q div 2;
          n = min (unat k) available
      in (drop (2 * n) q, accepted, delivered @ take (2 * n) q))"

definition spec_queue_run :: "sample list \<Rightarrow> ring_op list
    \<Rightarrow> sample list \<times> sample list \<times> sample list" where
  "spec_queue_run q ops = foldl spec_queue_step (q, [], []) ops"

section \<open>Floating-point values\<close>

text \<open>
  A finite \<^verbatim>\<open>float\<close> or \<^verbatim>\<open>double\<close> is modelled by the rational number it denotes;
  NaN and the infinities are outside the model. Comparisons are exact. An arithmetic
  result is rounded to the nearest value of the format, ties to even:
  \<open>fp_round p emin\<close> rounds to \<open>p\<close> significant bits with least normal exponent
  \<open>emin\<close> (gradual underflow below it). A result beyond the largest finite value, which
  C turns into an infinity, stays a large rational.
\<close>

type_synonym float32 = rat
type_synonym float64 = rat

fun bitlen :: "nat \<Rightarrow> nat" where
  "bitlen n = (if n = 0 then 0 else Suc (bitlen (n div 2)))"

declare bitlen.simps [simp del]

definition ilog2 :: "rat \<Rightarrow> int" where
  "ilog2 q = (if 1 \<le> q then int (bitlen (nat \<lfloor>q\<rfloor>)) - 1
              else - int (bitlen (nat (\<lceil>1 / q\<rceil> - 1))))"

definition round_even :: "rat \<Rightarrow> int" where
  "round_even q =
     (let f = \<lfloor>q\<rfloor>; d = q - of_int f
      in if d < 1 / 2 then f
         else if 1 / 2 < d then f + 1
         else if even f then f else f + 1)"

definition pow2 :: "int \<Rightarrow> rat" where
  "pow2 k = (if 0 \<le> k then 2 ^ nat k else 1 / 2 ^ nat (- k))"

definition fp_round :: "nat \<Rightarrow> int \<Rightarrow> rat \<Rightarrow> rat" where
  "fp_round p emin x =
     (if x = 0 then 0
      else let e = max (ilog2 \<bar>x\<bar>) emin;
               u = pow2 (e - (int p - 1))
           in of_int (round_even (x / u)) * u)"

definition round32 :: "rat \<Rightarrow> float32" where
  "round32 = fp_round 24 (- 126)"


definition fmul :: "float32 \<Rightarrow> float32 \<Rightarrow> float32" where
  "fmul a b = round32 (a * b)"

definition fdiv :: "float32 \<Rightarrow> float32 \<Rightarrow> float32" where
  "fdiv a b = round32 (a / b)"

text \<open>The C conversion of a float to an integer type drops the fraction.\<close>

definition truncz :: "rat \<Rightarrow> int" where
  "truncz x = (if 0 \<le> x then \<lfloor>x\<rfloor> else \<lceil>x\<rceil>)"


definition VOLUME_MIN_DB :: float32 where
  "VOLUME_MIN_DB = - 96"

definition VOLUME_MAX_DB :: float32 where
  "VOLUME_MAX_DB = 0"

section \<open>Driver state\<close>

text \<open>
  The fields of \<^verbatim>\<open>DriverState\<close> that the modelled functions read or write. The plug-in
  interface pointer, the host reference, the thread handles, the codec handles and the
  logger are left out. \<^verbatim>\<open>gDriver\<close> is a \<open>DriverState option\<close>: \<open>None\<close> is the NULL
  pointer before \<^verbatim>\<open>BungholeAudio_Create\<close>.
\<close>

record DriverState =
  outputRing :: RingBuffer
  inputRing :: RingBuffer
  outputVolume :: float32
  outputMute :: u32
  inputVolume :: float32
  inputMute :: u32
  outputIORunning :: u32
  inputIORunning :: u32
  outputHostTicksAtZero :: u64
  inputHostTicksAtZero :: u64
  outputSampleTime :: u64
  inputSampleTime :: u64
  running :: u32
  timebase_numer :: u32
  timebase_denom :: u32

text \<open>
  The state \<^verbatim>\<open>driver_Initialize\<close> leaves behind: both rings initialized, both volumes
  1.0, nothing muted, no IO running, the workers started; the timebase is the
  125/3 ratio of a 24 MHz host clock.
\<close>

definition initialized_driver :: DriverState where
  "initialized_driver =
     \<lparr>outputRing = ring_init \<lparr>samples = [], head = 0, tail = 0\<rparr>,
      inputRing = ring_init \<lparr>samples = [], head = 0, tail = 0\<rparr>,
      outputVolume = 1, outputMute = 0, inputVolume = 1, inputMute = 0,
      outputIORunning = 0, inputIORunning = 0,
      outputHostTicksAtZero = 0, inputHostTicksAtZero = 0,
      outputSampleTime = 0, inputSampleTime = 0,
      running = 1, timebase_numer = 125, timebase_denom = 3\<rparr>"

datatype OSStatus =
    kAudioHardwareNoError
  | kAudioHardwareUnspecifiedError
  | kAudioHardwareUnknownPropertyError
  | kAudioHardwareBadPropertySizeError
  | kAudioHardwareUnsupportedOperationError

text \<open>
  Modelled from the spec: the IO operation codes are constants of the CoreAudio header
  \<^verbatim>\<open>AudioServerPlugIn.h\<close>, which is not in the repository. The spec names the two the
  driver handles write-mix and read-input; every other code the host may pass is
  \<open>OtherIOOperation\<close>.
\<close>

datatype io_operation =
    kAudioServerPlugInIOOperationWriteMix
  | kAudioServerPlugInIOOperationReadInput
  | OtherIOOperation u32

section \<open>IO operations\<close>


definition driver_StopIO :: "DriverState option \<Rightarrow> u32 \<Rightarrow> OSStatus \<times> DriverState option" where
  "driver_StopIO gDriver oid =
     (case gDriver of
        None \<Rightarrow> (kAudioHardwareUnspecifiedError, None)
      | Some drv \<Rightarrow>
          if is_output_device oid
          then (kAudioHardwareNoError, Some (drv\<lparr>outputIORunning := 0\<rparr>))
          else if is_input_device oid
          then (kAudioHardwareNoError, Some (drv\<lparr>inputIORunning := 0\<rparr>))
          else (kAudioHardwareNoError, Some drv))"




definition driver_DoIOOperation ::
    "DriverState option \<Rightarrow> u32 \<Rightarrow> io_operation \<Rightarrow> u32 \<Rightarrow> sample list
     \<Rightarrow> OSStatus \<times> DriverState option \<times> sample list" where
  "driver_DoIOOperation gDriver oid opID ioSize ioMainBuffer =
     (case gDriver of
        None \<Rightarrow> (kAudioHardwareUnspecifiedError, None, ioMainBuffer)
      | Some drv \<Rightarrow>
          if is_output_device oid \<and> opID = kAudioServerPlugInIOOperationWriteMix
          then (case ring_write (outputRing drv) ioMainBuffer (ucast ioSize) of
                  (rb', written) \<Rightarrow>
                    (kAudioHardwareNoError, Some (drv\<lparr>outputRing := rb'\<rparr>), ioMainBuffer))
          else if is_input_device oid \<and> opID = kAudioServerPlugInIOOperationReadInput
          then (case ring_read (inputRing drv) ioMainBuffer (ucast ioSize) of
                  (rb', buf, got) \<Rightarrow>
                    (kAudioHardwareNoError, Some (drv\<lparr>inputRing := rb'\<rparr>),
                     if got < ucast ioSize
                     then memset_zero buf (unat (got * NUM_CHANNELS))
                            (unat ((ucast ioSize - got) * BYTES_PER_FRAME))
                     else buf))
          else (kAudioHardwareNoError, Some drv, ioMainBuffer))"

section \<open>Volume controls\<close>

text \<open>
  \<^verbatim>\<open>log10f\<close> and \<^verbatim>\<open>powf\<close> belong to the C library, not to the repository: the two
  conversions take them as parameters.
\<close>

definition scalar_to_db :: "(float32 \<Rightarrow> float32) \<Rightarrow> float32 \<Rightarrow> float32" where
  "scalar_to_db log10f scalar =
     (if scalar \<le> 0 then VOLUME_MIN_DB
      else let db = fmul 20 (log10f scalar)
           in if db < VOLUME_MIN_DB then VOLUME_MIN_DB else db)"

definition db_to_scalar :: "(float32 \<Rightarrow> float32 \<Rightarrow> float32) \<Rightarrow> float32 \<Rightarrow> float32" where
  "db_to_scalar powf db =
     (if db \<le> VOLUME_MIN_DB then 0 else powf 10 (fdiv db 20))"

text \<open>
  The accuracy asked of the C library at the two calls a round trip from \<open>db\<close> makes:
  \<^verbatim>\<open>powf(10, db / 20)\<close> within a relative error of \<open>2^-20\<close> of the real power, and
  \<^verbatim>\<open>log10f\<close> of that result within \<open>2^-20\<close> of the real logarithm (between 8 and 16
  units in the last place of the power, at least 2 of the logarithm).
\<close>

definition libm_accurate_at ::
    "(float32 \<Rightarrow> float32) \<Rightarrow> (float32 \<Rightarrow> float32 \<Rightarrow> float32) \<Rightarrow> float32 \<Rightarrow> bool" where
  "libm_accurate_at log10f powf db \<longleftrightarrow>
     \<bar>real_of_rat (powf 10 (fdiv db 20)) - 10 powr real_of_rat (fdiv db 20)\<bar>
       \<le> 10 powr real_of_rat (fdiv db 20) / 2 ^ 20
     \<and> \<bar>real_of_rat (log10f (powf 10 (fdiv db 20)))
          - log 10 (real_of_rat (powf 10 (fdiv db 20)))\<bar> \<le> 1 / 2 ^ 20"

text \<open>
  Modelled from the spec: the property selectors, class ids and scopes are constants of
  the CoreAudio headers, which are not in the repository. The selectors are the case
  labels of the volume-control switch; every other selector is \<open>OtherSelector\<close>.
\<close>

datatype selector =
    kAudioObjectPropertyBaseClass
  | kAudioObjectPropertyClass
  | kAudioObjectPropertyOwner
  | kAudioObjectPropertyOwnedObjects
  | kAudioObjectPropertyName
  | kAudioControlPropertyScope
  | kAudioControlPropertyElement
  | kAudioLevelControlPropertyScalarValue
  | kAudioLevelControlPropertyDecibelValue
  | kAudioLevelControlPropertyDecibelRange
  | kAudioLevelControlPropertyConvertScalarToDecibels
  | kAudioLevelControlPropertyConvertDecibelsToScalar
  | OtherSelector u32

datatype class_id = kAudioObjectClassID | kAudioLevelControlClassID

datatype scope = kAudioObjectPropertyScopeOutput | kAudioObjectPropertyScopeInput

text \<open>What a property call leaves in \<^verbatim>\<open>outData\<close>, by C type.\<close>

datatype property_data =
    AudioClassID_data class_id
  | AudioObjectID_data u32
  | CFStringRef_data string
  | Scope_data scope
  | UInt32_data u32
  | Float32_data float32
  | AudioValueRange_data float64 float64
  | Untouched

text \<open>\<^verbatim>\<open>volPtr\<close> selects the output or the input volume field.\<close>

definition load_volPtr :: "bool \<Rightarrow> DriverState \<Rightarrow> float32" where
  "load_volPtr isOutputVol drv = (if isOutputVol then outputVolume drv else inputVolume drv)"

definition store_volPtr :: "bool \<Rightarrow> float32 \<Rightarrow> DriverState \<Rightarrow> DriverState" where
  "store_volPtr isOutputVol v drv =
     (if isOutputVol then drv\<lparr>outputVolume := v\<rparr> else drv\<lparr>inputVolume := v\<rparr>)"

text \<open>
  \<^verbatim>\<open>WRITE_PROPERTY(type, value)\<close> with \<open>sz = sizeof(type)\<close>: the size check, then the
  size and the value written. The result is the status, the new \<^verbatim>\<open>*outSize\<close> (if
  written) and the new content of \<^verbatim>\<open>outData\<close>.
\<close>

definition WRITE_PROPERTY :: "u32 \<Rightarrow> nat \<Rightarrow> property_data \<Rightarrow> OSStatus \<times> u32 option \<times> property_data" where
  "WRITE_PROPERTY inSize sz v =
     (if unat inSize < sz then (kAudioHardwareBadPropertySizeError, None, Untouched)
      else (kAudioHardwareNoError, Some (of_nat sz), v))"

text \<open>
  The volume-control block of \<^verbatim>\<open>driver_GetPropertyData\<close>. The blocks for the plug-in,
  the devices and the streams come first in the source and are skipped for a volume
  object; for any other object this model gives \<open>None\<close> (not embedded). \<open>inout\<close> is
  the \<^verbatim>\<open>Float32\<close> the caller left in \<^verbatim>\<open>outData\<close>, which the two conversion selectors
  read.
\<close>

definition driver_GetPropertyData ::
    "(float32 \<Rightarrow> float32) \<Rightarrow> (float32 \<Rightarrow> float32 \<Rightarrow> float32) \<Rightarrow> DriverState \<Rightarrow> u32
     \<Rightarrow> selector \<Rightarrow> u32 \<Rightarrow> float32 \<Rightarrow> (OSStatus \<times> u32 option \<times> property_data) option" where
  "driver_GetPropertyData log10f powf drv oid sel inSize inout =
     (if is_volume oid then
        (let isOutputVol = (oid = kObjectID_OutputVolume) in
         Some (case sel of
           kAudioObjectPropertyBaseClass \<Rightarrow>
             WRITE_PROPERTY inSize 4 (AudioClassID_data kAudioObjectClassID)
         | kAudioObjectPropertyClass \<Rightarrow>
             WRITE_PROPERTY inSize 4 (AudioClassID_data kAudioLevelControlClassID)
         | kAudioObjectPropertyOwner \<Rightarrow>
             WRITE_PROPERTY inSize 4
               (AudioObjectID_data (if isOutputVol then kObjectID_OutputDevice
                                    else kObjectID_InputDevice))
         | kAudioObjectPropertyOwnedObjects \<Rightarrow> (kAudioHardwareNoError, Some 0, Untouched)
         | kAudioObjectPropertyName \<Rightarrow>
             WRITE_PROPERTY inSize 8
               (CFStringRef_data (if isOutputVol then ''Output Volume'' else ''Input Volume''))
         | kAudioControlPropertyScope \<Rightarrow>
             WRITE_PROPERTY inSize 4
               (Scope_data (if isOutputVol then kAudioObjectPropertyScopeOutput
                            else kAudioObjectPropertyScopeInput))
         | kAudioControlPropertyElement \<Rightarrow> WRITE_PROPERTY inSize 4 (UInt32_data 0)
         | kAudioLevelControlPropertyScalarValue \<Rightarrow>
             (let v = load_volPtr isOutputVol drv in WRITE_PROPERTY inSize 4 (Float32_data v))
         | kAudioLevelControlPropertyDecibelValue \<Rightarrow>
             (let v = load_volPtr isOutputVol drv
              in WRITE_PROPERTY inSize 4 (Float32_data (scalar_to_db log10f v)))
         | kAudioLevelControlPropertyDecibelRange \<Rightarrow>
             (if unat inSize < 16 then (kAudioHardwareBadPropertySizeError, None, Untouched)
              else (kAudioHardwareNoError, Some 16,
                    AudioValueRange_data VOLUME_MIN_DB VOLUME_MAX_DB))
         | kAudioLevelControlPropertyConvertScalarToDecibels \<Rightarrow>
             (if unat inSize < 4 then (kAudioHardwareBadPropertySizeError, None, Untouched)
              else (kAudioHardwareNoError, Some 4, Float32_data (scalar_to_db log10f inout)))
         | kAudioLevelControlPropertyConvertDecibelsToScalar \<Rightarrow>
             (if unat inSize < 4 then (kAudioHardwareBadPropertySizeError, None, Untouched)
              else (kAudioHardwareNoError, Some 4, Float32_data (db_to_scalar powf inout)))
         | OtherSelector x \<Rightarrow> (kAudioHardwareUnknownPropertyError, None, Untouched)))
      else None)"

definition driver_SetPropertyData ::
    "(float32 \<Rightarrow> float32 \<Rightarrow> float32) \<Rightarrow> DriverState \<Rightarrow> u32 \<Rightarrow> selector \<Rightarrow> u32 \<Rightarrow> float32
     \<Rightarrow> OSStatus \<times> DriverState" where
  "driver_SetPropertyData powf drv oid sel inSize inData =
     (if is_volume oid then
        (let isOutputVol = (oid = kObjectID_OutputVolume) in
         case sel of
           kAudioLevelControlPropertyScalarValue \<Rightarrow>
             if unat inSize < 4 then (kAudioHardwareBadPropertySizeError, drv)
             else
               let v = inData;
                   v = (if v < 0 then 0 else v);
                   v = (if v > 1 then 1 else v)
               in (kAudioHardwareNoError, store_volPtr isOutputVol v drv)
         | kAudioLevelControlPropertyDecibelValue \<Rightarrow>
             if unat inSize < 4 then (kAudioHardwareBadPropertySizeError, drv)
             else
               let db = inData;
                   db = (if db < VOLUME_MIN_DB then VOLUME_MIN_DB else db);
                   db = (if db > VOLUME_MAX_DB then VOLUME_MAX_DB else db)
               in (kAudioHardwareNoError, store_volPtr isOutputVol (db_to_scalar powf db) drv)
         | _ \<Rightarrow> (kAudioHardwareUnsupportedOperationError, drv))
      else (kAudioHardwareUnsupportedOperationError, drv))"

section \<open>Egress codec step: float to 16-bit PCM\<close>

text \<open>
  The body of the conversion loop of \<^verbatim>\<open>output_transport_thread\<close> for one sample, and
  the loop over the accumulated codec frame with the gain snapshot taken before it.
\<close>

definition pcm16_of_float :: "float32 \<Rightarrow> float32 \<Rightarrow> u16" where
  "pcm16_of_float x gain =
     (let s = fmul (fmul x gain) 32767;
          s = (if s > 32767 then 32767 else s);
          s = (if s < - 32768 then - 32768 else s)
      in word_of_int (truncz s))"

definition output_apply_volume :: "DriverState \<Rightarrow> float32 list \<Rightarrow> u16 list" where
  "output_apply_volume drv pcm =
     (let vol = outputVolume drv;
          mute = outputMute drv;
          gain = (if mute \<noteq> 0 then 0 else vol)
      in map (\<lambda>x. pcm16_of_float x gain) pcm)"

text \<open>
  The conversion as the specification words it:
  \<open>clamp(round(x \<sqdot> g \<sqdot> 32767), -32768, 32767)\<close> with \<open>g = 0\<close> when muted.
\<close>

definition spec_pcm16 :: "rat \<Rightarrow> rat \<Rightarrow> bool \<Rightarrow> int" where
  "spec_pcm16 x gain mute =
     (let g = (if mute then 0 else gain)
      in max (- 32768) (min 32767 (round (x * g * 32767))))"

section \<open>Framed transport\<close>

text \<open>
  The stream behind a connected socket: what each coming \<^verbatim>\<open>read\<close> call will find.
  \<open>Data bs\<close> is a burst of bytes ready to be read (an empty burst is the end of the
  stream, where \<^verbatim>\<open>read\<close> returns 0), \<open>Err\<close> is a failing call (-1). A stream with
  nothing left is at its end. \<open>sys_read s n\<close> is \<^verbatim>\<open>read(fd, p, n)\<close>: the return
  value, the bytes stored at \<open>p\<close> and the stream afterwards.
\<close>

datatype event = Data "u8 list" | Err

type_synonym sock = "event list"

fun sys_read :: "sock \<Rightarrow> nat \<Rightarrow> int \<times> u8 list \<times> sock" where
  "sys_read [] n = (0, [], [])"
| "sys_read (Err # s) n = (- 1, [], s)"
| "sys_read (Data bs # s) n =
     (let k = min n (length bs)
      in (int k, take k bs, if k < length bs then Data (drop k bs) # s else s))"

text \<open>
  The loop \<^verbatim>\<open>while (n < need) { r = read(fd, p + n, need - n); if (r <= 0) return -1;
  n += r; }\<close>: \<open>got\<close> is the bytes stored so far, \<open>n\<close> their number; \<open>None\<close> is the
  \<^verbatim>\<open>return -1\<close>.
\<close>

function read_loop :: "sock \<Rightarrow> nat \<Rightarrow> u8 list \<Rightarrow> (u8 list \<times> sock) option" where
  "read_loop s need got =
     (if length got < need
      then (case sys_read s (need - length got) of
              (r, bs, s') \<Rightarrow> if r \<le> 0 then None else read_loop s' need (got @ bs))
      else Some (got, s))"
  by pat_completeness auto
termination
  apply (relation "measure (\<lambda>(s, need, got). need - length got)")
   apply simp
  subgoal for s need got r bs s'
    by (cases "(s, need - length got)" rule: sys_read.cases)
       (auto simp: Let_def min_def neq_Nil_conv split: if_splits)
  done

declare read_loop.simps [simp del]

text \<open>\<open>None\<close> is the return value -1; \<open>Some (len, payload, s)\<close> is 0 with \<^verbatim>\<open>*out_len\<close>.\<close>

definition framed_read :: "sock \<Rightarrow> int \<Rightarrow> (u16 \<times> u8 list \<times> sock) option" where
  "framed_read s bufsize =
     (case read_loop s 2 [] of
        None \<Rightarrow> None
      | Some (hdr, s1) \<Rightarrow>
          let len = (push_bit 8 (ucast (hdr ! 0) :: u16)) OR ucast (hdr ! 1)
          in if len = 0 \<or> uint len > bufsize then None
             else (case read_loop s1 (unat len) [] of
                     None \<Rightarrow> None
                   | Some (buf, s2) \<Rightarrow> Some (len, buf, s2)))"

text \<open>
  The head of the inner loop of \<^verbatim>\<open>input_transport_thread\<close>: a failed frame read
  breaks out to close the socket and reconnect; otherwise the packet goes on to the
  decoder.
\<close>

datatype ingress_step = Break_reconnect | Packet u16 "u8 list" sock

definition input_transport_thread_read :: "sock \<Rightarrow> ingress_step" where
  "input_transport_thread_read s =
     (case framed_read s OPUS_MAX_PACKET of
        None \<Rightarrow> Break_reconnect
      | Some (pkt_len, opus_buf, s') \<Rightarrow> Packet pkt_len opus_buf s')"

text \<open>
  The bytes a stream delivers before its first failure or end: what a reader that
  keeps reading can obtain.
\<close>

fun stream_bytes :: "sock \<Rightarrow> u8 list" where
  "stream_bytes [] = []"
| "stream_bytes (Err # s) = []"
| "stream_bytes (Data bs # s) = (if bs = [] then [] else bs @ stream_bytes s)"

text \<open>The length a wire frame announces: its first two bytes, big-endian.\<close>

definition wire_length :: "u8 list \<Rightarrow> nat" where
  "wire_length bs = 256 * unat (bs ! 0) + unat (bs ! 1)"

section \<open>The ring: pointwise behaviour\<close>

lemma unat_RING_CAPACITY: "unat RING_CAPACITY = 8192"
  by (simp add: RING_CAPACITY_def)

lemma length_memcpy: "length (memcpy dst doff src soff n) = length dst"
  by (simp add: memcpy_def)

lemma nth_memcpy:
  "i < length dst \<Longrightarrow>
   memcpy dst doff src soff n ! i =
     (if doff \<le> i \<and> i < doff + n div 4 then src ! (soff + (i - doff)) else dst ! i)"
  by (simp add: memcpy_def SIZEOF_FLOAT_def)

lemma unat_idx: "unat (h mod RING_CAPACITY) = unat h mod 8192"
  by (simp add: unat_mod unat_RING_CAPACITY)

lemma unat_times_channels:
  "unat x \<le> 8192 \<Longrightarrow> unat (x * NUM_CHANNELS) = unat x * 2"
  unfolding NUM_CHANNELS_def
  by (simp add: unat_word_ariths)

lemma unat_times_bytes:
  "unat x \<le> 8192 \<Longrightarrow> unat (x * BYTES_PER_FRAME) = unat x * 8"
  unfolding BYTES_PER_FRAME_def NUM_CHANNELS_def BITS_PER_CHANNEL_def
  by (simp add: unat_word_ariths)

lemma unat_free:
  "head rb - tail rb \<le> RING_CAPACITY \<Longrightarrow>
   unat (RING_CAPACITY - (head rb - tail rb)) = 8192 - unat (head rb - tail rb)"
  by (simp add: unat_sub unat_RING_CAPACITY)

lemma ring_write_returns:
  "snd (ring_write rb src k) = min k (RING_CAPACITY - (head rb - tail rb))"
  by (auto simp: ring_write_def Let_def min_def)


lemma frame_offset_cases:
  fixes f p :: nat
  assumes "f < 8192" "p < 8192"
  shows "(f + 8192 - p) mod 8192 = (if p \<le> f then f - p else f + 8192 - p)"
  using assms by (auto simp: mod_if)

lemma if_less_min: "(if b < a then b else a) = min a (b::'a::linorder)"
  by auto

lemma sample_index_same:
  fixes i p :: nat
  assumes "p \<le> i div 2"
  shows "i - p * 2 = 2 * (i div 2 - p) + i mod 2"
proof -
  define q r where "q = i div 2" and "r = i mod 2"
  have "i = 2 * q + r" by (simp add: q_def r_def)
  moreover have "p \<le> q" using assms by (simp add: q_def)
  ultimately have "i - p * 2 = 2 * (q - p) + r" by simp
  then show ?thesis by (simp add: q_def r_def)
qed

lemma sample_index_wrap:
  fixes i p c :: nat
  assumes "p \<le> c"
  shows "(c - p) * 2 + i = 2 * (i div 2 + c - p) + i mod 2"
proof -
  define q r where "q = i div 2" and "r = i mod 2"
  have "i = 2 * q + r" by (simp add: q_def r_def)
  then have "(c - p) * 2 + i = 2 * (q + c - p) + r" using assms by simp
  then show ?thesis by (simp add: q_def r_def)
qed

lemma ring_write_min:
  "ring_write rb src k =
     (let n = min k (RING_CAPACITY - (head rb - tail rb))
      in if n = 0 then (rb, 0)
         else
           let idx = head rb mod RING_CAPACITY;
               first = min (RING_CAPACITY - idx) n;
               s1 = memcpy (samples rb) (unat (idx * NUM_CHANNELS)) src 0
                      (unat (first * BYTES_PER_FRAME));
               s2 = (if n > first
                     then memcpy s1 0 src (unat (first * NUM_CHANNELS))
                            (unat ((n - first) * BYTES_PER_FRAME))
                     else s1)
           in (rb\<lparr>samples := s2, head := head rb + n\<rparr>, n))"
  unfolding ring_write_def Let_def if_less_min by (rule refl)

lemma ring_write_samples_nth:
  assumes ok: "ring_ok rb" and i: "i < 16384"
  shows "samples (fst (ring_write rb src k)) ! i =
     (let n = unat (min k (RING_CAPACITY - (head rb - tail rb)));
          p = unat (head rb) mod 8192;
          d = (i div 2 + 8192 - p) mod 8192
      in if d < n then src ! (2 * d + i mod 2) else samples rb ! i)"
proof -
  define n where "n = min k (RING_CAPACITY - (head rb - tail rb))"
  define p where "p = unat (head rb) mod 8192"
  have len: "length (samples rb) = 16384" and inv: "head rb - tail rb \<le> RING_CAPACITY"
    using ok by (auto simp: ring_ok_def)
  have n_le: "unat n \<le> 8192"
    using unat_free[OF inv] by (auto simp: n_def min_def word_le_nat_alt)
  have p_lt: "p < 8192" by (simp add: p_def)
  have f_lt: "i div 2 < 8192" using i by simp
  have d: "(i div 2 + 8192 - p) mod 8192 = (if p \<le> i div 2 then i div 2 - p else i div 2 + 8192 - p)"
    by (rule frame_offset_cases[OF f_lt p_lt])
  show ?thesis
  proof (cases "n = 0")
    case True
    then show ?thesis
      by (simp add: ring_write_min Let_def n_def[symmetric])
  next
    case False
    define first0 where "first0 = RING_CAPACITY - head rb mod RING_CAPACITY"
    define first where "first = min first0 n"
    have idx: "unat (head rb mod RING_CAPACITY) = p" by (simp add: unat_idx p_def)
    have idx_le: "head rb mod RING_CAPACITY \<le> RING_CAPACITY"
      by (simp add: word_le_nat_alt idx unat_RING_CAPACITY) (use p_lt in simp)
    have first0: "unat first0 = 8192 - p"
      unfolding first0_def by (simp add: unat_sub[OF idx_le] idx unat_RING_CAPACITY)
    have first: "unat first = min (8192 - p) (unat n)"
      by (auto simp: first_def first0 word_le_nat_alt min_def)
    have first_le: "unat first \<le> 8192" using first by simp
    have cf: "n > first \<longleftrightarrow> unat n > 8192 - p"
      by (auto simp: word_less_nat_alt first min_def)
    have cmf: "unat (n - first) = unat n - unat first"
      by (rule unat_sub) (auto simp: word_le_nat_alt first)
    have cmf_le: "unat (n - first) \<le> 8192" using cmf n_le by simp
    have cmf8: "unat ((n - first) * BYTES_PER_FRAME) = (unat n - unat first) * 8"
      using unat_times_bytes[OF cmf_le] cmf by simp
    have w: "fst (ring_write rb src k) = rb\<lparr>samples := 
          (let s1 = memcpy (samples rb) (p * 2) src 0 (unat first * 8)
           in if unat n > 8192 - p then memcpy s1 0 src (unat first * 2) ((unat n - unat first) * 8) else s1),
          head := head rb + n\<rparr>"
      using False
      by (simp add: ring_write_min Let_def n_def[symmetric] first0_def[symmetric] first_def[symmetric]
          cf unat_times_channels unat_times_bytes idx first_le cmf8 p_lt less_imp_le)
    show ?thesis
      unfolding w using i len p_lt n_le
      apply (simp add: Let_def nth_memcpy length_memcpy n_def[symmetric] p_def[symmetric] d first)
      apply (auto simp: min_def)
        apply (simp_all only: sample_index_same)
      apply (subst sample_index_wrap[of p 8192 i]; simp)
      done
  qed
qed

lemma ring_read_min:
  "ring_read rb dst k =
     (let n = min k (head rb - tail rb)
      in if n = 0 then (rb, dst, 0)
         else
           let idx = tail rb mod RING_CAPACITY;
               first = min (RING_CAPACITY - idx) n;
               d1 = memcpy dst 0 (samples rb) (unat (idx * NUM_CHANNELS))
                      (unat (first * BYTES_PER_FRAME));
               d2 = (if n > first
                     then memcpy d1 (unat (first * NUM_CHANNELS)) (samples rb) 0
                            (unat ((n - first) * BYTES_PER_FRAME))
                     else d1)
           in (rb\<lparr>tail := tail rb + n\<rparr>, d2, n))"
  unfolding ring_read_def Let_def if_less_min by (rule refl)

lemma slot_index_same:
  fixes j p :: nat
  assumes "p + j div 2 < 8192"
  shows "p * 2 + j = 2 * ((p + j div 2) mod 8192) + j mod 2"
proof -
  define q r where "q = j div 2" and "r = j mod 2"
  have "j = 2 * q + r" by (simp add: q_def r_def)
  moreover have "(p + q) mod 8192 = p + q" using assms by (simp add: q_def)
  ultimately have "p * 2 + j = 2 * ((p + q) mod 8192) + r" by simp
  then show ?thesis by (simp add: q_def r_def)
qed

lemma slot_index_wrap:
  fixes j p :: nat
  assumes "8192 \<le> p + j div 2" "p + j div 2 < 16384" "p < 8192"
  shows "j - (8192 - p) * 2 = 2 * ((p + j div 2) mod 8192) + j mod 2"
proof -
  define q r where "q = j div 2" and "r = j mod 2"
  have j: "j = 2 * q + r" by (simp add: q_def r_def)
  have ge: "8192 \<le> p + q" and lt: "p + q < 16384"
    using assms by (simp_all add: q_def)
  have m: "(p + q) mod 8192 = p + q - 8192"
    using ge lt by (simp add: mod_if)
  have "2 * q + r - (8192 - p) * 2 = 2 * (p + q - 8192) + r"
    using ge assms(3) by linarith
  then have "j - (8192 - p) * 2 = 2 * ((p + q) mod 8192) + r"
    unfolding m using j by simp
  then show ?thesis by (simp add: q_def r_def)
qed

lemma ring_read_dst_nth:
  assumes inv: "head rb - tail rb \<le> RING_CAPACITY" and j: "j < length dst"
  shows "fst (snd (ring_read rb dst k)) ! j =
     (let n = unat (min k (head rb - tail rb));
          p = unat (tail rb) mod 8192
      in if j div 2 < n then samples rb ! (2 * ((p + j div 2) mod 8192) + j mod 2) else dst ! j)"
proof -
  define n where "n = min k (head rb - tail rb)"
  define p where "p = unat (tail rb) mod 8192"
  have n_le: "unat n \<le> 8192"
    using inv by (auto simp: n_def min_def word_le_nat_alt unat_RING_CAPACITY)
  have p_lt: "p < 8192" by (simp add: p_def)
  show ?thesis
  proof (cases "n = 0")
    case True
    then show ?thesis
      by (simp add: ring_read_min Let_def n_def[symmetric])
  next
    case False
    define first0 where "first0 = RING_CAPACITY - tail rb mod RING_CAPACITY"
    define first where "first = min first0 n"
    have idx: "unat (tail rb mod RING_CAPACITY) = p" by (simp add: unat_idx p_def)
    have idx_le: "tail rb mod RING_CAPACITY \<le> RING_CAPACITY"
      by (simp add: word_le_nat_alt idx unat_RING_CAPACITY) (use p_lt in simp)
    have first0: "unat first0 = 8192 - p"
      unfolding first0_def by (simp add: unat_sub[OF idx_le] idx unat_RING_CAPACITY)
    have first: "unat first = min (8192 - p) (unat n)"
      by (auto simp: first_def first0 word_le_nat_alt min_def)
    have first_le: "unat first \<le> 8192" using first by simp
    have cf: "n > first \<longleftrightarrow> unat n > 8192 - p"
      by (auto simp: word_less_nat_alt first min_def)
    have cmf: "unat (n - first) = unat n - unat first"
      by (rule unat_sub) (auto simp: word_le_nat_alt first)
    have cmf_le: "unat (n - first) \<le> 8192" using cmf n_le by simp
    have cmf8: "unat ((n - first) * BYTES_PER_FRAME) = (unat n - unat first) * 8"
      using unat_times_bytes[OF cmf_le] cmf by simp
    have w: "fst (snd (ring_read rb dst k)) =
          (let d1 = memcpy dst 0 (samples rb) (p * 2) (unat first * 8)
           in if unat n > 8192 - p then memcpy d1 (unat first * 2) (samples rb) 0 ((unat n - unat first) * 8) else d1)"
      using False
      by (simp add: ring_read_min Let_def n_def[symmetric] first0_def[symmetric] first_def[symmetric]
          cf unat_times_channels unat_times_bytes idx first_le cmf8 p_lt less_imp_le)
    have jd: "j div 2 < unat n \<longleftrightarrow> j < 2 * unat n" by auto
    show ?thesis
    proof (cases "j div 2 < unat n")
      case outside: False
      have "fst (snd (ring_read rb dst k)) ! j = dst ! j"
        unfolding w using j outside
        by (auto simp: Let_def nth_memcpy length_memcpy first min_def)
      then show ?thesis using outside
        by (simp add: Let_def n_def[symmetric] p_def[symmetric])
    next
      case inside: True
      show ?thesis
      proof (cases "p + j div 2 < 8192")
        case True
        have "fst (snd (ring_read rb dst k)) ! j = samples rb ! (p * 2 + j)"
          unfolding w using j inside True
          by (auto simp: Let_def nth_memcpy length_memcpy first min_def)
        then show ?thesis using inside
          by (simp add: Let_def n_def[symmetric] p_def[symmetric] slot_index_same[OF True])
      next
        case False
        then have ge: "8192 \<le> p + j div 2" by simp
        have lt: "p + j div 2 < 16384" using p_lt inside n_le by simp
        have "fst (snd (ring_read rb dst k)) ! j = samples rb ! (j - (8192 - p) * 2)"
          unfolding w using j inside False p_lt
          by (auto simp: Let_def nth_memcpy length_memcpy first min_def)
        then show ?thesis using inside
          by (simp add: Let_def n_def[symmetric] p_def[symmetric] slot_index_wrap[OF ge lt p_lt])
      qed
    qed
  qed
qed

lemma length_ring_read_dst: "length (fst (snd (ring_read rb dst k))) = length dst"
  by (simp add: ring_read_min Let_def length_memcpy)


lemma unat_add_mod_capacity:
  fixes a b :: u64
  shows "unat (a + b) mod 8192 = (unat a + unat b) mod 8192"
proof -
  have "unat (a + b) = (unat a + unat b) mod 2 ^ 64"
    by (simp add: unat_word_ariths)
  moreover have "(8192::nat) dvd 2 ^ 64" by simp
  ultimately show ?thesis by (simp only: mod_mod_cancel)
qed

lemma unat_head_mod:
  "unat (head rb) mod 8192 = (unat (tail rb) + unat (head rb - tail rb)) mod 8192"
  using unat_add_mod_capacity[of "tail rb" "head rb - tail rb"] by simp

lemma offset_from_head:
  fixes T q av :: nat
  assumes "av \<le> 8192"
  shows "((T + q) mod 8192 + 8192 - (T + av) mod 8192) mod 8192 = (q + 8192 - av) mod 8192"
proof -
  have "int (((T + q) mod 8192 + 8192 - (T + av) mod 8192) mod 8192)
        = (int ((T + q) mod 8192) + 8192 - int ((T + av) mod 8192)) mod 8192"
    by (simp add: zmod_int of_nat_diff)
  also have "\<dots> = ((int T + int q) mod 8192 - (int T + int av) mod 8192 + 8192) mod 8192"
    by (simp add: zmod_int algebra_simps)
  also have "\<dots> = ((int T + int q) mod 8192 - (int T + int av) mod 8192) mod 8192"
    by simp
  also have "\<dots> = ((int T + int q) - (int T + int av)) mod 8192"
    by (simp only: mod_diff_eq)
  also have "\<dots> = (int q - int av + 8192) mod 8192" by simp
  also have "\<dots> = int ((q + 8192 - av) mod 8192)"
    using assms by (simp add: zmod_int of_nat_diff algebra_simps)
  finally show ?thesis by (simp only: of_nat_eq_iff)
qed

lemma ring_write_head:
  "head (fst (ring_write rb src k)) = head rb + min k (RING_CAPACITY - (head rb - tail rb))"
  by (simp add: ring_write_min Let_def)

lemma ring_write_tail: "tail (fst (ring_write rb src k)) = tail rb"
  by (simp add: ring_write_min Let_def)

lemma ring_write_length:
  "length (samples (fst (ring_write rb src k))) = length (samples rb)"
  by (simp add: ring_write_min Let_def length_memcpy)

lemma ring_read_head: "head (fst (ring_read rb dst k)) = head rb"
  by (simp add: ring_read_min Let_def)

lemma ring_read_tail:
  "tail (fst (ring_read rb dst k)) = tail rb + min k (head rb - tail rb)"
  by (simp add: ring_read_min Let_def)

lemma ring_read_samples: "samples (fst (ring_read rb dst k)) = samples rb"
  by (simp add: ring_read_min Let_def)

lemma ring_read_returns: "snd (snd (ring_read rb dst k)) = min k (head rb - tail rb)"
  by (simp add: ring_read_min Let_def)

lemma write_count_bound:
  assumes "head rb - tail rb \<le> RING_CAPACITY"
  shows "unat (head rb - tail rb) + unat (min k (RING_CAPACITY - (head rb - tail rb))) \<le> 8192"
  using unat_free[OF assms] assms
  by (auto simp: min_def word_le_nat_alt unat_RING_CAPACITY)

lemma ring_write_avail:
  assumes "head rb - tail rb \<le> RING_CAPACITY"
  shows "unat (head (fst (ring_write rb src k)) - tail (fst (ring_write rb src k))) =
         unat (head rb - tail rb) + unat (min k (RING_CAPACITY - (head rb - tail rb)))"
proof -
  define n where "n = min k (RING_CAPACITY - (head rb - tail rb))"
  have b: "unat (head rb - tail rb) + unat n \<le> 8192"
    using write_count_bound[OF assms] by (simp add: n_def)
  have eq: "head rb + n - tail rb = (head rb - tail rb) + n" by simp
  have "unat ((head rb - tail rb) + n) = unat (head rb - tail rb) + unat n"
    by (rule unat_add_lem[THEN iffD1]) (use b in simp)
  then show ?thesis
    by (simp only: ring_write_head ring_write_tail n_def[symmetric] eq)
qed

lemma ring_read_avail:
  "unat (head (fst (ring_read rb dst k)) - tail (fst (ring_read rb dst k))) =
   unat (head rb - tail rb) - unat (min k (head rb - tail rb))"
proof -
  define n where "n = min k (head rb - tail rb)"
  have le: "n \<le> head rb - tail rb" by (simp add: n_def)
  have eq: "head rb - (tail rb + n) = (head rb - tail rb) - n" by simp
  have "unat ((head rb - tail rb) - n) = unat (head rb - tail rb) - unat n"
    by (rule unat_sub[OF le])
  then show ?thesis
    by (simp only: ring_read_head ring_read_tail n_def[symmetric] eq)
qed

lemma ring_write_ok: "ring_ok rb \<Longrightarrow> ring_ok (fst (ring_write rb src k))"
proof -
  assume ok: "ring_ok rb"
  then have inv: "head rb - tail rb \<le> RING_CAPACITY" by (simp add: ring_ok_def)
  show ?thesis
    using ok ring_write_avail[OF inv, of src k] write_count_bound[OF inv, of k]
    by (simp add: ring_ok_def ring_write_length word_le_nat_alt unat_RING_CAPACITY)
qed

lemma ring_read_ok: "ring_ok rb \<Longrightarrow> ring_ok (fst (ring_read rb dst k))"
  using ring_read_avail[of rb dst k]
  by (auto simp: ring_ok_def ring_read_samples word_le_nat_alt unat_RING_CAPACITY)

lemma ring_init_ok: "ring_ok (ring_init rb)"
  by (simp add: ring_ok_def ring_init_def RING_CAPACITY_def NUM_CHANNELS_def)

lemma ring_init_contents: "ring_contents (ring_init rb) = []"
  by (simp add: ring_contents_def ring_init_def)

lemma length_ring_contents: "length (ring_contents rb) = 2 * unat (head rb - tail rb)"
  by (simp add: ring_contents_def)

lemma slot_sample_lt: "c < 2 \<Longrightarrow> 2 * (a mod 8192) + c < (16384::nat)"
proof -
  assume "c < 2"
  moreover have "a mod 8192 < 8192" by simp
  ultimately show ?thesis by linarith
qed

lemma slot_sample_div: "c < 2 \<Longrightarrow> (2 * s + c) div 2 = (s::nat)"
  by simp

lemma slot_sample_mod: "c < 2 \<Longrightarrow> (2 * s + c) mod 2 = (c::nat)"
  by simp

lemma ring_write_contents:
  assumes ok: "ring_ok rb"
  shows "ring_contents (fst (ring_write rb src k)) =
         ring_contents rb @
         map ((!) src) [0..<2 * unat (min k (RING_CAPACITY - (head rb - tail rb)))]"
proof (rule nth_equalityI)
  define n where "n = unat (min k (RING_CAPACITY - (head rb - tail rb)))"
  define av where "av = unat (head rb - tail rb)"
  define T where "T = unat (tail rb)"
  have inv: "head rb - tail rb \<le> RING_CAPACITY" using ok by (simp add: ring_ok_def)
  have av': "unat (head (fst (ring_write rb src k)) - tail (fst (ring_write rb src k))) = av + n"
    using ring_write_avail[OF inv] by (simp add: av_def n_def)
  have bound: "av + n \<le> 8192" using write_count_bound[OF inv] by (simp add: av_def n_def)
  show len: "length (ring_contents (fst (ring_write rb src k))) =
        length (ring_contents rb @ map ((!) src) [0..<2 * unat (min k (RING_CAPACITY - (head rb - tail rb)))])"
    by (simp add: length_ring_contents av' av_def[symmetric] n_def[symmetric])
  fix j assume "j < length (ring_contents (fst (ring_write rb src k)))"
  then have j: "j < 2 * (av + n)" by (simp add: length_ring_contents av')
  define q c where "q = j div 2" and "c = j mod 2"
  have c: "c < 2" by (simp add: c_def)
  have q: "q < av + n" using j by (auto simp: q_def)
  have jqc: "j = 2 * q + c" by (simp add: q_def c_def)
  define i where "i = 2 * ((T + q) mod 8192) + c"
  have i: "i < 16384" unfolding i_def by (rule slot_sample_lt[OF c])
  have idiv: "i div 2 = (T + q) mod 8192" unfolding i_def by (rule slot_sample_div[OF c])
  have imod: "i mod 2 = c" unfolding i_def by (rule slot_sample_mod[OF c])
  have hm: "unat (head rb) mod 8192 = (T + av) mod 8192"
    using unat_head_mod[of rb] by (simp add: T_def av_def)
  have d: "(i div 2 + 8192 - unat (head rb) mod 8192) mod 8192 = (q + 8192 - av) mod 8192"
    unfolding idiv hm by (rule offset_from_head) (use bound in simp)
  have lhs: "ring_contents (fst (ring_write rb src k)) ! j = samples (fst (ring_write rb src k)) ! i"
    using j by (simp add: ring_contents_def av'[unfolded ring_write_tail] ring_write_tail T_def[symmetric] i_def q_def c_def)
  have new: "samples (fst (ring_write rb src k)) ! i =
      (if (q + 8192 - av) mod 8192 < n then src ! (2 * ((q + 8192 - av) mod 8192) + c) else samples rb ! i)"
    using ring_write_samples_nth[OF ok i, of src k]
    by (simp add: Let_def d imod n_def[symmetric])
  show "ring_contents (fst (ring_write rb src k)) ! j =
        (ring_contents rb @ map ((!) src) [0..<2 * unat (min k (RING_CAPACITY - (head rb - tail rb)))]) ! j"
  proof (cases "q < av")
    case True
    then have jl: "j < 2 * av" using jqc c by simp
    have "(q + 8192 - av) mod 8192 = q + 8192 - av" using True bound by simp
    moreover have "\<not> q + 8192 - av < n" using True bound by simp
    ultimately have "samples (fst (ring_write rb src k)) ! i = samples rb ! i"
      using new by simp
    moreover have "ring_contents rb ! j = samples rb ! i"
      using jl by (simp add: ring_contents_def av_def[symmetric] T_def[symmetric] i_def q_def c_def)
    ultimately show ?thesis
      using jl lhs by (simp add: nth_append length_ring_contents av_def[symmetric])
  next
    case False
    then have jl: "\<not> j < 2 * av" using jqc by simp
    have m: "(q + 8192 - av) mod 8192 = q - av" using False bound q by (simp add: mod_if)
    have "q - av < n" using False q by simp
    then have "samples (fst (ring_write rb src k)) ! i = src ! (2 * (q - av) + c)"
      using new m by simp
    moreover have "2 * (q - av) + c = j - 2 * av" using False jqc by simp
    moreover have "j - 2 * av < 2 * n" using j jl by simp
    ultimately show ?thesis
      using jl lhs
      by (simp add: nth_append length_ring_contents av_def[symmetric] n_def[symmetric])
  qed
qed

lemma slot_shift:
  fixes a b :: u64
  shows "(unat (a + b) + q) mod 8192 = (unat a + (unat b + q)) mod 8192"
proof -
  have "(unat (a + b) + q) mod 8192 = (unat (a + b) mod 8192 + q) mod 8192"
    by (simp only: mod_add_left_eq)
  also have "\<dots> = ((unat a + unat b) mod 8192 + q) mod 8192"
    by (simp only: unat_add_mod_capacity)
  also have "\<dots> = (unat a + unat b + q) mod 8192"
    by (simp only: mod_add_left_eq)
  finally show ?thesis by (simp only: add.assoc)
qed

lemma ring_read_contents:
  "ring_contents (fst (ring_read rb dst k)) =
   drop (2 * unat (min k (head rb - tail rb))) (ring_contents rb)"
proof (rule nth_equalityI)
  define n where "n = unat (min k (head rb - tail rb))"
  define av where "av = unat (head rb - tail rb)"
  have n_le: "n \<le> av" by (simp add: n_def av_def min_def word_le_nat_alt)
  have av': "unat (head rb - (tail rb + min k (head rb - tail rb))) = av - n"
    using ring_read_avail[of rb dst k]
    by (simp only: ring_read_head ring_read_tail av_def n_def)
  show "length (ring_contents (fst (ring_read rb dst k))) =
        length (drop (2 * unat (min k (head rb - tail rb))) (ring_contents rb))"
    by (simp add: length_ring_contents ring_read_head ring_read_tail av' av_def[symmetric]
        n_def[symmetric])
  fix j assume "j < length (ring_contents (fst (ring_read rb dst k)))"
  then have j: "j < 2 * (av - n)"
    by (simp add: length_ring_contents ring_read_head ring_read_tail av')
  have j2: "2 * n + j < 2 * av" using j by simp
  have dv: "(2 * n + j) div 2 = n + j div 2" by simp
  have md: "(2 * n + j) mod 2 = j mod 2" by simp
  have "ring_contents (fst (ring_read rb dst k)) ! j =
        samples rb ! (2 * ((unat (tail rb + min k (head rb - tail rb)) + j div 2) mod 8192) + j mod 2)"
    using j by (simp add: ring_contents_def ring_read_head ring_read_tail ring_read_samples av')
  also have "\<dots> = samples rb ! (2 * ((unat (tail rb) + (n + j div 2)) mod 8192) + j mod 2)"
    by (simp only: slot_shift n_def)
  also have "\<dots> = ring_contents rb ! (2 * n + j)"
    using j2 by (simp add: ring_contents_def av_def[symmetric] dv md del: mult_Suc)
  finally show "ring_contents (fst (ring_read rb dst k)) ! j =
        drop (2 * unat (min k (head rb - tail rb))) (ring_contents rb) ! j"
    using j2 by (simp add: n_def[symmetric] length_ring_contents av_def[symmetric])
qed

lemma ring_read_output:
  assumes inv: "head rb - tail rb \<le> RING_CAPACITY"
    and len: "2 * unat (min k (head rb - tail rb)) \<le> length dst"
  shows "take (2 * unat (min k (head rb - tail rb))) (fst (snd (ring_read rb dst k))) =
         take (2 * unat (min k (head rb - tail rb))) (ring_contents rb)"
proof (rule nth_equalityI)
  define n where "n = unat (min k (head rb - tail rb))"
  define av where "av = unat (head rb - tail rb)"
  have n_le: "n \<le> av" by (simp add: n_def av_def min_def word_le_nat_alt)
  show "length (take (2 * unat (min k (head rb - tail rb))) (fst (snd (ring_read rb dst k)))) =
        length (take (2 * unat (min k (head rb - tail rb))) (ring_contents rb))"
    using len n_le
    by (simp add: length_ring_read_dst length_ring_contents n_def[symmetric] av_def[symmetric])
  fix j assume "j < length (take (2 * unat (min k (head rb - tail rb))) (fst (snd (ring_read rb dst k))))"
  then have j: "j < 2 * n" by (simp add: n_def)
  then have jd: "j div 2 < n" by auto
  have jl: "j < length dst" using j len by (simp add: n_def)
  have jav: "j < 2 * av" using j n_le by simp
  have "fst (snd (ring_read rb dst k)) ! j =
        samples rb ! (2 * ((unat (tail rb) mod 8192 + j div 2) mod 8192) + j mod 2)"
    using ring_read_dst_nth[OF inv jl, of k] jd by (simp add: Let_def n_def[symmetric])
  also have "(unat (tail rb) mod 8192 + j div 2) mod 8192 = (unat (tail rb) + j div 2) mod 8192"
    by (simp only: mod_add_left_eq)
  finally have "fst (snd (ring_read rb dst k)) ! j = ring_contents rb ! j"
    using jav by (simp add: ring_contents_def av_def[symmetric])
  then show "take (2 * unat (min k (head rb - tail rb))) (fst (snd (ring_read rb dst k))) ! j =
        take (2 * unat (min k (head rb - tail rb))) (ring_contents rb) ! j"
    using j by (simp add: n_def[symmetric])
qed

lemma slot_offset_self:
  fixes H q :: nat
  assumes "q < 8192"
  shows "((H + q) mod 8192 + 8192 - H mod 8192) mod 8192 = q"
  using offset_from_head[of 0 H q] assms by simp

lemma ring_write_frame_copied:
  assumes ok: "ring_ok rb"
    and q: "q < unat (min k (RING_CAPACITY - (head rb - tail rb)))" and c: "c < 2"
  shows "samples (fst (ring_write rb src k)) ! (2 * ((unat (head rb) + q) mod 8192) + c) =
         src ! (2 * q + c)"
proof -
  define i where "i = 2 * ((unat (head rb) + q) mod 8192) + c"
  have inv: "head rb - tail rb \<le> RING_CAPACITY" using ok by (simp add: ring_ok_def)
  have q_lt: "q < 8192" using write_count_bound[OF inv, of k] q by simp
  have i: "i < 16384" unfolding i_def by (rule slot_sample_lt[OF c])
  have idiv: "i div 2 = (unat (head rb) + q) mod 8192"
    unfolding i_def by (rule slot_sample_div[OF c])
  have imod: "i mod 2 = c" unfolding i_def by (rule slot_sample_mod[OF c])
  have d: "(i div 2 + 8192 - unat (head rb) mod 8192) mod 8192 = q"
    unfolding idiv by (rule slot_offset_self[OF q_lt])
  show ?thesis
    using ring_write_samples_nth[OF ok i, of src k] q
    by (simp add: Let_def d imod i_def[symmetric])
qed

lemma ring_write_changed_only:
  assumes ok: "ring_ok rb" and i: "i < 16384"
    and ch: "samples (fst (ring_write rb src k)) ! i \<noteq> samples rb ! i"
  shows "(i div 2 + 8192 - unat (head rb) mod 8192) mod 8192
         < unat (min k (RING_CAPACITY - (head rb - tail rb)))"
  using ring_write_samples_nth[OF ok i, of src k] ch
  by (simp add: Let_def split: if_splits)

lemma unat_min_free:
  assumes "head rb - tail rb \<le> RING_CAPACITY"
  shows "unat (min k (RING_CAPACITY - (head rb - tail rb))) =
         min (unat k) (8192 - unat (head rb - tail rb))"
  using unat_free[OF assms] by (auto simp: min_def word_le_nat_alt)

lemma ring_write_zero: "ring_write rb src 0 = (rb, 0)"
  by (simp add: ring_write_min Let_def)

lemma ring_write_empty_overflow:
  assumes "head e = tail e"
  shows "snd (ring_write e src 8193) = 8192"
    and "head (fst (ring_write e src 8193)) - tail (fst (ring_write e src 8193)) = 8192"
    and "snd (ring_write (fst (ring_write e src 8193)) src' 1) = 0"
proof -
  have m: "min (8193::u64) RING_CAPACITY = 8192"
    by (simp add: RING_CAPACITY_def min_def)
  show r: "snd (ring_write e src 8193) = 8192"
    using assms by (simp add: ring_write_returns m)
  show a: "head (fst (ring_write e src 8193)) - tail (fst (ring_write e src 8193)) = 8192"
    using assms by (simp add: ring_write_head ring_write_tail m)
  show "snd (ring_write (fst (ring_write e src 8193)) src' 1) = 0"
    by (simp add: ring_write_returns a RING_CAPACITY_def)
qed

text \<open>
  Claim C1. For every ring whose occupancy \<open>head - tail\<close> is at most the capacity, and
  every request of \<open>k\<close> frames, \<open>ring_write\<close> returns exactly \<open>min k free\<close> with
  \<open>free = C_r - (head - tail)\<close>, advances \<open>head\<close> by that count and leaves \<open>tail\<close>
  alone. It copies at most that many frames: a sample of the ring that changes lies
  less than \<open>min k free\<close> slots after the slot of \<open>head\<close>, and those slots receive the
  first frames of \<open>src\<close> in order. A write of 8193 frames into an empty ring returns
  8192 and leaves \<open>head - tail = 8192\<close>; a following write of one frame returns 0;
  a write of no frame returns 0 and does not modify the ring.
\<close>

theorem ring_write_min_free:
  assumes "head rb - tail rb \<le> RING_CAPACITY" and "length (samples rb) = 16384"
  shows "snd (ring_write rb src k) = min k (RING_CAPACITY - (head rb - tail rb))
    \<and> unat (snd (ring_write rb src k)) = min (unat k) (8192 - unat (head rb - tail rb))
    \<and> head (fst (ring_write rb src k)) = head rb + snd (ring_write rb src k)
    \<and> tail (fst (ring_write rb src k)) = tail rb
    \<and> length (samples (fst (ring_write rb src k))) = 16384
    \<and> (\<forall>i<16384. samples (fst (ring_write rb src k)) ! i \<noteq> samples rb ! i \<longrightarrow>
          (i div 2 + 8192 - unat (head rb) mod 8192) mod 8192 < unat (snd (ring_write rb src k)))
    \<and> (\<forall>q<unat (snd (ring_write rb src k)). \<forall>c<2.
          samples (fst (ring_write rb src k)) ! (2 * ((unat (head rb) + q) mod 8192) + c) =
          src ! (2 * q + c))
    \<and> (head e = tail e \<longrightarrow>
          snd (ring_write e src 8193) = 8192
          \<and> head (fst (ring_write e src 8193)) - tail (fst (ring_write e src 8193)) = 8192
          \<and> snd (ring_write (fst (ring_write e src 8193)) src' 1) = 0)
    \<and> ring_write rb src 0 = (rb, 0)"
proof -
  have ok: "ring_ok rb" using assms by (simp add: ring_ok_def)
  have r: "snd (ring_write rb src k) = min k (RING_CAPACITY - (head rb - tail rb))"
    by (rule ring_write_returns)
  show ?thesis
    unfolding r
    using ring_write_changed_only[OF ok] ring_write_frame_copied[OF ok]
      ring_write_empty_overflow
    by (simp add: unat_min_free[OF assms(1)] ring_write_head ring_write_tail ring_write_length
        assms(2) ring_write_zero)
qed

theorem ring_write_min_free_witness:
  "head \<lparr>samples = replicate 16384 0, head = 8191, tail = 8190\<rparr>
     - tail \<lparr>samples = replicate 16384 0, head = 8191, tail = 8190\<rparr> \<le> RING_CAPACITY
   \<and> length (samples \<lparr>samples = replicate 16384 0, head = 8191, tail = 8190\<rparr>) = 16384
   \<and> snd (ring_write \<lparr>samples = replicate 16384 0, head = 8191, tail = 8190\<rparr> [1, 2, 3, 4] 2) = 2
   \<and> samples (fst (ring_write \<lparr>samples = replicate 16384 0, head = 8191, tail = 8190\<rparr>
         [1, 2, 3, 4] 2)) ! 16383 = 2
   \<and> samples (fst (ring_write \<lparr>samples = replicate 16384 0, head = 8191, tail = 8190\<rparr>
         [1, 2, 3, 4] 2)) ! 0 = 3"
proof -
  define rb :: RingBuffer where "rb = \<lparr>samples = replicate 16384 0, head = 8191, tail = 8190\<rparr>"
  have h1: "head rb - tail rb \<le> RING_CAPACITY" by (simp add: rb_def RING_CAPACITY_def)
  have h2: "length (samples rb) = 16384" by (simp add: rb_def)
  note t = ring_write_min_free[OF h1 h2, of "[1, 2, 3, 4]" 2]
  have r: "snd (ring_write rb [1, 2, 3, 4] 2) = 2"
    using t by (simp add: rb_def RING_CAPACITY_def)
  have cp: "\<forall>q<2. \<forall>c<2. samples (fst (ring_write rb [1, 2, 3, 4] 2)) ! (2 * ((unat (head rb) + q) mod 8192) + c) =
          [1, 2, 3, 4] ! (2 * q + c)"
    using t unfolding r by simp
  have a: "samples (fst (ring_write rb [1, 2, 3, 4] 2)) ! 16383 = 2"
    using cp[rule_format, of 0 1] by (simp add: rb_def)
  have b: "samples (fst (ring_write rb [1, 2, 3, 4] 2)) ! 0 = 3"
    using cp[rule_format, of 1 0] by (simp add: rb_def)
  show ?thesis using h1 h2 r a b unfolding rb_def by simp
qed

section \<open>The ring invariant\<close>

lemma ring_inv_imp_modular:
  assumes "ring_inv rb"
  shows "head rb - tail rb \<le> RING_CAPACITY"
    and "unat (head rb - tail rb) = unat (head rb) - unat (tail rb)"
proof -
  have le: "tail rb \<le> head rb" using assms by (simp add: ring_inv_def word_le_nat_alt)
  show d: "unat (head rb - tail rb) = unat (head rb) - unat (tail rb)"
    by (rule unat_sub[OF le])
  show "head rb - tail rb \<le> RING_CAPACITY"
    using assms by (auto simp: word_le_nat_alt d ring_inv_def)
qed

lemma ring_init_inv: "ring_inv (ring_init rb)"
  by (simp add: ring_inv_def ring_init_def)

lemma ring_write_modular:
  assumes "head rb - tail rb \<le> RING_CAPACITY"
  shows "head (fst (ring_write rb src k)) - tail (fst (ring_write rb src k)) \<le> RING_CAPACITY"
  using ring_write_avail[OF assms, of src k] write_count_bound[OF assms, of k]
  by (simp add: word_le_nat_alt unat_RING_CAPACITY)

lemma ring_read_modular:
  assumes "head rb - tail rb \<le> RING_CAPACITY"
  shows "head (fst (ring_read rb dst k)) - tail (fst (ring_read rb dst k)) \<le> RING_CAPACITY"
  using ring_read_avail[of rb dst k] assms
  by (auto simp: word_le_nat_alt unat_RING_CAPACITY)

lemma ring_read_inv:
  assumes inv: "ring_inv rb"
  shows "ring_inv (fst (ring_read rb dst k))"
    and "tail rb \<le> tail (fst (ring_read rb dst k))"
proof -
  define n where "n = min k (head rb - tail rb)"
  have d: "unat (head rb - tail rb) = unat (head rb) - unat (tail rb)"
    by (rule ring_inv_imp_modular(2)[OF inv])
  have n_le: "unat n \<le> unat (head rb) - unat (tail rb)"
    using d by (simp add: n_def min_def word_le_nat_alt)
  have th: "unat (tail rb) \<le> unat (head rb)" using inv by (simp add: ring_inv_def)
  have "unat (tail rb) + unat n < 2 ^ 64"
    using n_le th unsigned_less[of "head rb", where ?'a = nat] by simp
  then have t': "unat (tail rb + n) = unat (tail rb) + unat n"
    by (simp add: unat_add_lem[THEN iffD1])
  show "ring_inv (fst (ring_read rb dst k))"
    using inv n_le th
    by (simp add: ring_inv_def ring_read_head ring_read_tail n_def[symmetric] t')
  show "tail rb \<le> tail (fst (ring_read rb dst k))"
    by (simp add: ring_read_tail n_def[symmetric] word_le_nat_alt t')
qed

lemma ring_write_inv:
  assumes inv: "ring_inv rb"
    and nowrap: "unat (head rb) + unat (snd (ring_write rb src k)) < 2 ^ 64"
  shows "ring_inv (fst (ring_write rb src k))"
    and "head rb \<le> head (fst (ring_write rb src k))"
proof -
  define n where "n = min k (RING_CAPACITY - (head rb - tail rb))"
  have m: "head rb - tail rb \<le> RING_CAPACITY" by (rule ring_inv_imp_modular(1)[OF inv])
  have d: "unat (head rb - tail rb) = unat (head rb) - unat (tail rb)"
    by (rule ring_inv_imp_modular(2)[OF inv])
  have th: "unat (tail rb) \<le> unat (head rb)" using inv by (simp add: ring_inv_def)
  have b: "unat (head rb) - unat (tail rb) + unat n \<le> 8192"
    using write_count_bound[OF m, of k] by (simp add: d n_def)
  have "unat (head rb) + unat n < 2 ^ 64"
    using nowrap by (simp add: ring_write_returns n_def)
  then have h': "unat (head rb + n) = unat (head rb) + unat n"
    by (simp add: unat_add_lem[THEN iffD1])
  show "ring_inv (fst (ring_write rb src k))"
    using th b
    by (simp add: ring_inv_def ring_write_head ring_write_tail n_def[symmetric] h'
        unat_RING_CAPACITY)
  show "head rb \<le> head (fst (ring_write rb src k))"
    by (simp add: ring_write_head n_def[symmetric] word_le_nat_alt h')
qed

text \<open>
  Claim C2, amended. The indices are 64-bit counters and \<open>ring_write\<close> advances
  \<open>head\<close> with a wrapping addition, so the ordering \<open>tail \<le> head \<le> tail + C_r\<close> is
  kept only while \<open>head\<close> does not wrap. What holds: the ordering holds after
  \<open>ring_init\<close>; the wrap-safe form \<open>head - tail \<le> C_r\<close> (64-bit subtraction) is
  preserved by every \<open>ring_write\<close> and every \<open>ring_read\<close> and follows from the
  ordering; \<open>ring_read\<close> preserves the ordering, never decreases \<open>tail\<close> and leaves
  \<open>head\<close> alone; \<open>ring_write\<close> preserves the ordering, never decreases \<open>head\<close> and
  leaves \<open>tail\<close> alone whenever \<open>head\<close> plus the frames written stays below \<open>2^64\<close>.
\<close>

theorem ring_invariant_modular:
  "ring_inv (ring_init rb0)
   \<and> (head rb - tail rb \<le> RING_CAPACITY \<longrightarrow>
        head (fst (ring_write rb src k)) - tail (fst (ring_write rb src k)) \<le> RING_CAPACITY
        \<and> head (fst (ring_read rb dst k)) - tail (fst (ring_read rb dst k)) \<le> RING_CAPACITY)
   \<and> (ring_inv rb \<longrightarrow>
        head rb - tail rb \<le> RING_CAPACITY
        \<and> ring_inv (fst (ring_read rb dst k))
        \<and> tail rb \<le> tail (fst (ring_read rb dst k))
        \<and> head (fst (ring_read rb dst k)) = head rb)
   \<and> (ring_inv rb \<and> unat (head rb) + unat (snd (ring_write rb src k)) < 2 ^ 64 \<longrightarrow>
        ring_inv (fst (ring_write rb src k))
        \<and> head rb \<le> head (fst (ring_write rb src k))
        \<and> tail (fst (ring_write rb src k)) = tail rb)"
  using ring_init_inv ring_write_modular ring_read_modular ring_read_inv ring_write_inv
    ring_inv_imp_modular(1)
  by (simp add: ring_read_head ring_write_tail)

theorem ring_invariant_modular_witness:
  "ring_inv ring_at_wrap
   \<and> head ring_at_wrap - tail ring_at_wrap \<le> RING_CAPACITY
   \<and> head (fst (ring_write ring_at_wrap [1, 2] 1)) - tail (fst (ring_write ring_at_wrap [1, 2] 1))
       \<le> RING_CAPACITY
   \<and> ring_inv (fst (ring_read ring_at_wrap [0, 0] 1))
   \<and> unat (head (ring_init ring_at_wrap)) + unat (snd (ring_write (ring_init ring_at_wrap) [1, 2] 1))
       < 2 ^ 64
   \<and> ring_inv (fst (ring_write (ring_init ring_at_wrap) [1, 2] 1))"
proof -
  have i: "ring_inv ring_at_wrap"
    by (simp add: ring_inv_def ring_at_wrap_def)
  have m: "head ring_at_wrap - tail ring_at_wrap \<le> RING_CAPACITY"
    by (simp add: ring_at_wrap_def)
  have i0: "ring_inv (ring_init ring_at_wrap)"
    using ring_invariant_modular[of ring_at_wrap] by simp
  have nw: "unat (head (ring_init ring_at_wrap))
      + unat (snd (ring_write (ring_init ring_at_wrap) [1, 2] 1)) < 2 ^ 64"
    by (simp add: ring_init_def ring_write_returns RING_CAPACITY_def)
  show ?thesis
    using i m nw i0
      ring_invariant_modular[of ring_at_wrap ring_at_wrap "[1, 2]" 1 "[0, 0]"]
      ring_invariant_modular[of ring_at_wrap "ring_init ring_at_wrap" "[1, 2]" 1 "[0, 0]"]
    by simp
qed

text \<open>
  The claim as stated fails at the last index value: with \<open>head = tail = 2^64 - 1\<close>
  the ordering holds, and writing one frame wraps \<open>head\<close> to 0, below \<open>tail\<close> and
  below its own previous value.
\<close>

theorem ring_invariant_wrap_counterexample:
  "ring_inv ring_at_wrap
   \<and> \<not> ring_inv (fst (ring_write ring_at_wrap [1, 2] 1))
   \<and> head (fst (ring_write ring_at_wrap [1, 2] 1)) < head ring_at_wrap"
  by (simp add: ring_inv_def ring_at_wrap_def ring_write_head RING_CAPACITY_def
      ring_write_tail)

section \<open>First in, first out\<close>

lemma map_nth_take: "n \<le> length xs \<Longrightarrow> map ((!) xs) [0..<n] = take n xs"
  by (rule nth_equalityI) simp_all


lemma ring_step_fifo:
  assumes st: "fifo_state c0 st" and ok: "op_ok x"
  shows "fifo_state c0 (ring_step st x)"
proof -
  obtain rb acc out where s: "st = (rb, acc, out)" by (cases st) auto
  have rok: "ring_ok rb" and eq: "c0 @ acc = out @ ring_contents rb"
    using st by (simp_all add: fifo_state_def s)
  have inv: "head rb - tail rb \<le> RING_CAPACITY" using rok by (simp add: ring_ok_def)
  show ?thesis
  proof (cases x)
    case (Write src k)
    define n where "n = unat (min k (RING_CAPACITY - (head rb - tail rb)))"
    have "n \<le> unat k" by (simp add: n_def min_def word_le_nat_alt)
    then have len: "2 * n \<le> length src" using ok Write by simp
    have "ring_contents (fst (ring_write rb src k)) = ring_contents rb @ take (2 * n) src"
      using ring_write_contents[OF rok, of src k] map_nth_take[OF len] by (simp add: n_def)
    then show ?thesis
      using eq ring_write_ok[OF rok, of src k]
      by (simp add: fifo_state_def s Write split_beta ring_write_returns n_def)
  next
    case (Read dst k)
    define n where "n = unat (min k (head rb - tail rb))"
    have "n \<le> unat k" by (simp add: n_def min_def word_le_nat_alt)
    then have len: "2 * n \<le> length dst" using ok Read by simp
    have o: "take (2 * n) (fst (snd (ring_read rb dst k))) = take (2 * n) (ring_contents rb)"
      using ring_read_output[OF inv, of k dst] len by (simp add: n_def)
    have c: "ring_contents (fst (ring_read rb dst k)) = drop (2 * n) (ring_contents rb)"
      by (simp add: ring_read_contents n_def)
    show ?thesis
      using eq ring_read_ok[OF rok, of dst k]
      by (simp add: fifo_state_def s Read split_beta ring_read_returns n_def[symmetric] o c)
  qed
qed

lemma foldl_ring_step_fifo:
  "fifo_state c0 st \<Longrightarrow> list_all op_ok ops \<Longrightarrow> fifo_state c0 (foldl ring_step st ops)"
  by (induction ops arbitrary: st) (simp_all add: ring_step_fifo)

lemma run_ops_fifo:
  assumes "ring_ok rb" and "list_all op_ok ops"
  shows "fifo_state (ring_contents rb) (run_ops rb ops)"
  unfolding run_ops_def
  by (rule foldl_ring_step_fifo[OF _ assms(2)]) (simp add: fifo_state_def assms(1))

lemma unat_min_avail:
  "unat (min k (head rb - tail rb)) = min (unat k) (unat (head rb - tail rb))"
  by (auto simp: min_def word_le_nat_alt)

lemma ring_step_refines:
  assumes rok: "ring_ok rb" and ok: "op_ok x"
  shows "ring_ok (fst (ring_step (rb, acc, out) x))"
    and "(ring_contents (fst (ring_step (rb, acc, out) x)), snd (ring_step (rb, acc, out) x)) =
         spec_queue_step (ring_contents rb, acc, out) x"
proof -
  have inv: "head rb - tail rb \<le> RING_CAPACITY" using rok by (simp add: ring_ok_def)
  have lq: "length (ring_contents rb) div 2 = unat (head rb - tail rb)"
    by (simp add: length_ring_contents)
  show "ring_ok (fst (ring_step (rb, acc, out) x))"
    using rok by (cases x) (simp_all add: split_beta ring_write_ok ring_read_ok)
  show "(ring_contents (fst (ring_step (rb, acc, out) x)), snd (ring_step (rb, acc, out) x)) =
         spec_queue_step (ring_contents rb, acc, out) x"
  proof (cases x)
    case (Write src k)
    define n where "n = unat (min k (RING_CAPACITY - (head rb - tail rb)))"
    have nn: "n = min (unat k) (8192 - unat (head rb - tail rb))"
      unfolding n_def by (rule unat_min_free[OF inv])
    have "n \<le> unat k" by (simp add: nn)
    then have len: "2 * n \<le> length src" using ok Write by simp
    have c: "ring_contents (fst (ring_write rb src k)) = ring_contents rb @ take (2 * n) src"
      using ring_write_contents[OF rok, of src k] map_nth_take[OF len] by (simp add: n_def)
    show ?thesis
      by (simp add: Write split_beta ring_write_returns n_def[symmetric] c lq Let_def
          nn[symmetric])
  next
    case (Read dst k)
    define n where "n = unat (min k (head rb - tail rb))"
    have nn: "n = min (unat k) (unat (head rb - tail rb))"
      unfolding n_def by (rule unat_min_avail)
    have "n \<le> unat k" by (simp add: nn)
    then have len: "2 * n \<le> length dst" using ok Read by simp
    have o: "take (2 * n) (fst (snd (ring_read rb dst k))) = take (2 * n) (ring_contents rb)"
      using ring_read_output[OF inv, of k dst] len by (simp add: n_def)
    have c: "ring_contents (fst (ring_read rb dst k)) = drop (2 * n) (ring_contents rb)"
      by (simp add: ring_read_contents n_def)
    show ?thesis
      by (simp add: Read split_beta ring_read_returns n_def[symmetric] o c lq Let_def
          nn[symmetric])
  qed
qed

lemma foldl_ring_step_refines:
  assumes "ring_ok (fst st)" and "list_all op_ok ops"
  shows "ring_ok (fst (foldl ring_step st ops))
       \<and> (ring_contents (fst (foldl ring_step st ops)), snd (foldl ring_step st ops)) =
         foldl spec_queue_step (ring_contents (fst st), snd st) ops"
  using assms
proof (induction ops arbitrary: st)
  case Nil
  then show ?case by simp
next
  case (Cons x xs)
  obtain rb acc out where s: "st = (rb, acc, out)" by (cases st) auto
  have rok: "ring_ok rb" using Cons.prems(1) by (simp add: s)
  have ok: "op_ok x" and oks: "list_all op_ok xs" using Cons.prems(2) by simp_all
  note r = ring_step_refines[OF rok ok, of acc out]
  from Cons.IH[OF r(1) oks] show ?case
    by (simp add: s r(2))
qed

lemma run_ops_refines:
  assumes "ring_ok rb" and "list_all op_ok ops"
  shows "(ring_contents (fst (run_ops rb ops)), snd (run_ops rb ops)) =
         spec_queue_run (ring_contents rb) ops"
  using foldl_ring_step_refines[of "(rb, [], [])" ops] assms
  by (simp add: run_ops_def spec_queue_run_def)

lemma ring_step_write_accepts:
  "fst (snd (ring_step (rb, acc, out) (Write src k))) =
   acc @ take (2 * unat (min k (RING_CAPACITY - (head rb - tail rb)))) src"
  by (simp add: split_beta ring_write_returns)

lemma spec_queue_run_example: "spec_queue_run []
     [Write [1, 2, 3, 4] 2, Read [0, 0] 1, Write [5, 6] 1, Read [0, 0, 0, 0] 2]
   = ([], [1, 2, 3, 4, 5, 6], [1, 2, 3, 4, 5, 6])"
  by (simp add: spec_queue_run_def)

text \<open>
  Claim C3. For every sequence of well-formed \<open>ring_write\<close> and \<open>ring_read\<close> calls on
  one ring, started from \<open>ring_init\<close>, the ring behaves as the bounded queue of the
  specification: its contents, the frames the writes accepted and the frames the reads
  returned are those of \<open>spec_queue_run\<close>, where a write of \<open>k\<close> frames accepts exactly
  the first \<open>min k free\<close> frames of its buffer and a read of \<open>k\<close> frames returns exactly
  the oldest \<open>min k available\<close> frames. Hence the accepted frames are the delivered
  frames, in the same order, followed by the frames still in the ring: the delivered
  sequence is a prefix of the accepted one, bit for bit, with no duplication and no
  reordering, and at most a ring-full is still pending. The only frames lost are those
  beyond the first \<open>min k free\<close> of a write. From any well-formed ring the old content
  comes out first, and each single call accepts or returns the stated frames. The calls
  are taken one after the other; overlapping executions of a write and a read are
  outside this model.
\<close>

theorem ring_fifo_order:
  assumes "list_all op_ok ops"
  shows "(case run_ops (ring_init rb0) ops of
           (rb', accepted, delivered) \<Rightarrow>
             (ring_contents rb', accepted, delivered) = spec_queue_run [] ops
             \<and> accepted = delivered @ ring_contents rb'
             \<and> prefix delivered accepted
             \<and> length (ring_contents rb') \<le> 2 * 8192)
       \<and> (ring_ok rb \<longrightarrow>
            (case run_ops rb ops of
               (rb', accepted, delivered) \<Rightarrow>
                 (ring_contents rb', accepted, delivered) = spec_queue_run (ring_contents rb) ops
                 \<and> ring_contents rb @ accepted = delivered @ ring_contents rb'))
       \<and> (ring_ok rb \<longrightarrow>
            fst (snd (ring_step (rb, accepted0, delivered0) (Write src k))) =
              accepted0 @ take (2 * min (unat k) (8192 - unat (head rb - tail rb))) src
            \<and> snd (snd (ring_step (rb, accepted0, delivered0) (Read dst k))) =
              delivered0 @ take (2 * min (unat k) (unat (head rb - tail rb)))
                             (fst (snd (ring_read rb dst k)))
            \<and> (2 * unat k \<le> length dst \<longrightarrow>
                 snd (snd (ring_step (rb, accepted0, delivered0) (Read dst k))) =
                   delivered0 @ take (2 * min (unat k) (unat (head rb - tail rb)))
                                  (ring_contents rb)))"
proof -
  have a: "fifo_state [] (run_ops (ring_init rb0) ops)"
    using run_ops_fifo[OF ring_init_ok assms, of rb0] by (simp add: ring_init_contents)
  obtain rb' acc out where r: "run_ops (ring_init rb0) ops = (rb', acc, out)"
    by (cases "run_ops (ring_init rb0) ops") auto
  have "ring_ok rb'" using a by (simp add: fifo_state_def r)
  then have "length (ring_contents rb') \<le> 2 * 8192"
    by (simp add: length_ring_contents ring_ok_def word_le_nat_alt unat_RING_CAPACITY)
  then have 1: "(case run_ops (ring_init rb0) ops of
           (rb', accepted, delivered) \<Rightarrow>
             (ring_contents rb', accepted, delivered) = spec_queue_run [] ops
             \<and> accepted = delivered @ ring_contents rb'
             \<and> prefix delivered accepted
             \<and> length (ring_contents rb') \<le> 2 * 8192)"
    using a run_ops_refines[OF ring_init_ok assms, of rb0]
    by (simp add: fifo_state_def r ring_init_contents)
  have 2: "ring_ok rb \<longrightarrow>
            (case run_ops rb ops of
               (rb', accepted, delivered) \<Rightarrow>
                 (ring_contents rb', accepted, delivered) = spec_queue_run (ring_contents rb) ops
                 \<and> ring_contents rb @ accepted = delivered @ ring_contents rb')"
    using run_ops_fifo[OF _ assms, of rb] run_ops_refines[OF _ assms, of rb]
    by (auto simp: fifo_state_def split_beta)
  have 3: "ring_ok rb \<longrightarrow>
            fst (snd (ring_step (rb, accepted0, delivered0) (Write src k))) =
              accepted0 @ take (2 * min (unat k) (8192 - unat (head rb - tail rb))) src
            \<and> snd (snd (ring_step (rb, accepted0, delivered0) (Read dst k))) =
              delivered0 @ take (2 * min (unat k) (unat (head rb - tail rb)))
                             (fst (snd (ring_read rb dst k)))
            \<and> (2 * unat k \<le> length dst \<longrightarrow>
                 snd (snd (ring_step (rb, accepted0, delivered0) (Read dst k))) =
                   delivered0 @ take (2 * min (unat k) (unat (head rb - tail rb)))
                                  (ring_contents rb))"
  proof
    assume rok: "ring_ok rb"
    then have inv: "head rb - tail rb \<le> RING_CAPACITY" by (simp add: ring_ok_def)
    have w: "fst (snd (ring_step (rb, accepted0, delivered0) (Write src k))) =
              accepted0 @ take (2 * min (unat k) (8192 - unat (head rb - tail rb))) src"
      by (simp only: ring_step_write_accepts unat_min_free[OF inv])
    have rd: "snd (snd (ring_step (rb, accepted0, delivered0) (Read dst k))) =
              delivered0 @ take (2 * min (unat k) (unat (head rb - tail rb)))
                             (fst (snd (ring_read rb dst k)))"
      by (simp add: split_beta ring_read_returns unat_min_avail)
    have rc: "snd (snd (ring_step (rb, accepted0, delivered0) (Read dst k))) =
                   delivered0 @ take (2 * min (unat k) (unat (head rb - tail rb)))
                                  (ring_contents rb)"
      if l: "2 * unat k \<le> length dst"
    proof -
      have "2 * unat (min k (head rb - tail rb)) \<le> length dst"
        using l by (simp add: unat_min_avail)
      from ring_read_output[OF inv this] show ?thesis
        unfolding rd by (simp add: unat_min_avail)
    qed
    show "fst (snd (ring_step (rb, accepted0, delivered0) (Write src k))) =
              accepted0 @ take (2 * min (unat k) (8192 - unat (head rb - tail rb))) src
            \<and> snd (snd (ring_step (rb, accepted0, delivered0) (Read dst k))) =
              delivered0 @ take (2 * min (unat k) (unat (head rb - tail rb)))
                             (fst (snd (ring_read rb dst k)))
            \<and> (2 * unat k \<le> length dst \<longrightarrow>
                 snd (snd (ring_step (rb, accepted0, delivered0) (Read dst k))) =
                   delivered0 @ take (2 * min (unat k) (unat (head rb - tail rb)))
                                  (ring_contents rb))"
      using w rd rc by blast
  qed
  show ?thesis using 1 2 3 by blast
qed

theorem ring_fifo_order_witness:
  "list_all op_ok [Write [1, 2, 3, 4] 2, Read [0, 0] 1, Write [5, 6] 1, Read [0, 0, 0, 0] 2]
   \<and> ring_ok (ring_init ring_at_wrap)
   \<and> (ring_contents (fst (run_ops (ring_init ring_at_wrap)
          [Write [1, 2, 3, 4] 2, Read [0, 0] 1, Write [5, 6] 1, Read [0, 0, 0, 0] 2])),
        snd (run_ops (ring_init ring_at_wrap)
          [Write [1, 2, 3, 4] 2, Read [0, 0] 1, Write [5, 6] 1, Read [0, 0, 0, 0] 2]))
       = ([], [1, 2, 3, 4, 5, 6], [1, 2, 3, 4, 5, 6])
   \<and> fst (snd (ring_step (ring_init ring_at_wrap, [], []) (Write [1, 2, 3, 4, 5, 6] 2)))
       = [1, 2, 3, 4]
   \<and> 2 * unat (2 :: u64) \<le> length [0, 0, 0, 0 :: sample]
   \<and> snd (snd (ring_step (ring_init ring_at_wrap, [], []) (Read [0, 0, 0, 0] 2))) = []"
proof -
  define ops where
    "ops = [Write [1, 2, 3, 4] 2, Read [0, 0] 1, Write [5, 6] 1, Read [0, 0, 0, 0] 2]"
  have h: "list_all op_ok ops" by (simp add: ops_def)
  have k: "ring_ok (ring_init ring_at_wrap)" by (rule ring_init_ok)
  have e: "unat (head (ring_init ring_at_wrap) - tail (ring_init ring_at_wrap)) = 0"
    by (simp add: ring_init_def)
  have l: "2 * unat (2 :: u64) \<le> length [0, 0, 0, 0 :: sample]" by simp
  note t = ring_fifo_order[OF h, where ?rb0.0 = ring_at_wrap and rb = "ring_init ring_at_wrap"
      and ?accepted0.0 = "[]" and ?delivered0.0 = "[]" and src = "[1, 2, 3, 4, 5, 6]"
      and k = 2 and dst = "[0, 0, 0, 0]"]
  have a: "(ring_contents (fst (run_ops (ring_init ring_at_wrap) ops)),
        snd (run_ops (ring_init ring_at_wrap) ops)) = ([], [1, 2, 3, 4, 5, 6], [1, 2, 3, 4, 5, 6])"
    using t unfolding ops_def spec_queue_run_example by (simp add: split_beta prod_eq_iff)
  have b: "fst (snd (ring_step (ring_init ring_at_wrap, [], []) (Write [1, 2, 3, 4, 5, 6] 2)))
       = [1, 2, 3, 4]"
    using t k unfolding e by simp
  have c: "snd (snd (ring_step (ring_init ring_at_wrap, [], []) (Read [0, 0, 0, 0] 2))) = []"
    using t k l unfolding e by simp
  show ?thesis using h k a b c l unfolding ops_def by simp
qed

section \<open>The realtime IO operation\<close>

lemma length_memset_zero: "length (memset_zero dst doff n) = length dst"
  by (simp add: memset_zero_def)

lemma nth_memset_zero:
  "i < length dst \<Longrightarrow>
   memset_zero dst doff n ! i = (if doff \<le> i \<and> i < doff + n div 4 then 0 else dst ! i)"
  by (simp add: memset_zero_def SIZEOF_FLOAT_def)

lemma unat_times_channels32:
  "unat x < 2 ^ 32 \<Longrightarrow> unat (x * NUM_CHANNELS) = unat x * 2"
  unfolding NUM_CHANNELS_def
  by (simp add: unat_word_ariths)

lemma unat_times_bytes32:
  "unat x < 2 ^ 32 \<Longrightarrow> unat (x * BYTES_PER_FRAME) = unat x * 8"
  unfolding BYTES_PER_FRAME_def NUM_CHANNELS_def BITS_PER_CHANNEL_def
  by (simp add: unat_word_ariths)

lemma unat_ucast_u32: "unat (ucast (w :: u32) :: u64) = unat w"
proof -
  have "unat w < 2 ^ 32" using unsigned_less[of w, where ?'a = nat] by simp
  then have "unat w < 2 ^ 64" by simp
  then show ?thesis
    by (simp add: unsigned_ucast_eq take_bit_nat_eq_self)
qed

lemma ring_read_dst_beyond:
  assumes k: "unat k < 2 ^ 32" and j: "j < length dst"
    and beyond: "2 * unat (min k (head rb - tail rb)) \<le> j"
  shows "fst (snd (ring_read rb dst k)) ! j = dst ! j"
proof -
  define n where "n = min k (head rb - tail rb)"
  define p where "p = unat (tail rb) mod 8192"
  have n_le: "unat n \<le> unat k"
    by (simp add: n_def min_def word_le_nat_alt)
  have n32: "unat n < 2 ^ 32" using n_le k by simp
  have p_lt: "p < 8192" by (simp add: p_def)
  have jn: "2 * unat n \<le> j" using beyond by (simp add: n_def)
  show ?thesis
  proof (cases "n = 0")
    case True
    then show ?thesis
      by (simp add: ring_read_min Let_def n_def[symmetric])
  next
    case False
    define first0 where "first0 = RING_CAPACITY - tail rb mod RING_CAPACITY"
    define first where "first = min first0 n"
    have idx: "unat (tail rb mod RING_CAPACITY) = p" by (simp add: unat_idx p_def)
    have idx_le: "tail rb mod RING_CAPACITY \<le> RING_CAPACITY"
      by (simp add: word_le_nat_alt idx unat_RING_CAPACITY) (use p_lt in simp)
    have first0: "unat first0 = 8192 - p"
      unfolding first0_def by (simp add: unat_sub[OF idx_le] idx unat_RING_CAPACITY)
    have first: "unat first = min (8192 - p) (unat n)"
      by (auto simp: first_def first0 word_le_nat_alt min_def)
    have first_le: "unat first \<le> 8192" using first by simp
    have cmf: "unat (n - first) = unat n - unat first"
      by (rule unat_sub) (auto simp: word_le_nat_alt first)
    have cmf32: "unat (n - first) < 2 ^ 32" using cmf n32 by simp
    have cmf8: "unat ((n - first) * BYTES_PER_FRAME) = (unat n - unat first) * 8"
      using unat_times_bytes32[OF cmf32] cmf by simp
    have w: "fst (snd (ring_read rb dst k)) =
          (let d1 = memcpy dst 0 (samples rb) (p * 2) (unat first * 8)
           in if n > first then memcpy d1 (unat first * 2) (samples rb) 0 ((unat n - unat first) * 8) else d1)"
      using False
      by (simp add: ring_read_min Let_def n_def[symmetric] first0_def[symmetric] first_def[symmetric]
          unat_times_channels unat_times_bytes idx first_le cmf8 p_lt less_imp_le)
    have fn: "unat first \<le> unat n" using first by simp
    show ?thesis
      unfolding w using j jn fn
      by (auto simp: Let_def nth_memcpy length_memcpy)
  qed
qed

lemma read_input_result:
  "driver_DoIOOperation (Some drv) kObjectID_InputDevice
      kAudioServerPlugInIOOperationReadInput ioSize buf =
   (kAudioHardwareNoError,
    Some (drv\<lparr>inputRing := fst (ring_read (inputRing drv) buf (ucast ioSize))\<rparr>),
    (let got = min (ucast ioSize) (head (inputRing drv) - tail (inputRing drv))
     in if got < ucast ioSize
        then memset_zero (fst (snd (ring_read (inputRing drv) buf (ucast ioSize))))
               (2 * unat got) (8 * (unat ioSize - unat got))
        else fst (snd (ring_read (inputRing drv) buf (ucast ioSize)))))"
proof -
  define k :: u64 where "k = ucast ioSize"
  define got where "got = min k (head (inputRing drv) - tail (inputRing drv))"
  have uk: "unat k = unat ioSize" by (simp add: k_def unat_ucast_u32)
  have k32: "unat k < 2 ^ 32"
    using unsigned_less[of ioSize, where ?'a = nat] by (simp add: uk)
  have g_le: "got \<le> k" by (simp add: got_def)
  then have g32: "unat got < 2 ^ 32" using k32 by (simp add: word_le_nat_alt)
  have d: "unat (k - got) = unat k - unat got" by (rule unat_sub[OF g_le])
  then have d32: "unat (k - got) < 2 ^ 32" using k32 by simp
  have a: "unat (got * NUM_CHANNELS) = 2 * unat got"
    using unat_times_channels32[OF g32] by simp
  have b: "unat ((k - got) * BYTES_PER_FRAME) = 8 * (unat ioSize - unat got)"
    using unat_times_bytes32[OF d32] d uk by simp
  show ?thesis
    unfolding Let_def k_def[symmetric] got_def[symmetric]
    by (simp add: driver_DoIOOperation_def is_input_device_def is_output_device_def
        kObjectID_InputDevice_def kObjectID_OutputDevice_def split_beta
        k_def[symmetric] ring_read_returns got_def[symmetric] a b)
qed

text \<open>
  Claim C4. For every call of \<open>driver_DoIOOperation\<close> on the input device with the
  read-input operation and any \<open>ioSize\<close>, the call returns success; with
  \<open>got = min ioSize (head - tail)\<close> the frames the ring yields, the frames of
  \<open>ioMainBuffer\<close> from \<open>got\<close> up to \<open>ioSize\<close> are zero, the buffer beyond \<open>ioSize\<close>
  frames is untouched, and (for a well-formed ring and a buffer of \<open>ioSize\<close> frames) the
  first \<open>got\<close> frames are the oldest frames of the ring. Reading 512 frames from an
  empty ring gives 512 frames of zeros, no error and an unchanged driver state.
\<close>

theorem read_input_zero_fill:
  "(case driver_DoIOOperation (Some drv) kObjectID_InputDevice
           kAudioServerPlugInIOOperationReadInput ioSize buf of
      (status, g, buf') \<Rightarrow>
        status = kAudioHardwareNoError
        \<and> length buf' = length buf
        \<and> (\<forall>j<length buf.
              2 * unat (min (ucast ioSize) (head (inputRing drv) - tail (inputRing drv))) \<le> j
              \<and> j < 2 * unat ioSize \<longrightarrow> buf' ! j = 0)
        \<and> (\<forall>j<length buf. 2 * unat ioSize \<le> j \<longrightarrow> buf' ! j = buf ! j)
        \<and> (ring_ok (inputRing drv) \<and> 2 * unat ioSize \<le> length buf \<longrightarrow>
              take (2 * unat (min (ucast ioSize) (head (inputRing drv) - tail (inputRing drv)))) buf' =
              take (2 * unat (min (ucast ioSize) (head (inputRing drv) - tail (inputRing drv))))
                (ring_contents (inputRing drv))))
   \<and> (head (inputRing drv) = tail (inputRing drv) \<and> length buf = 1024 \<longrightarrow>
        driver_DoIOOperation (Some drv) kObjectID_InputDevice
          kAudioServerPlugInIOOperationReadInput 512 buf =
        (kAudioHardwareNoError, Some drv, replicate 1024 0))"
proof -
  define k :: u64 where "k = ucast ioSize"
  define got where "got = min k (head (inputRing drv) - tail (inputRing drv))"
  define rd where "rd = fst (snd (ring_read (inputRing drv) buf k))"
  define buf' where "buf' = (if got < k then memset_zero rd (2 * unat got) (8 * (unat ioSize - unat got)) else rd)"
  have uk: "unat k = unat ioSize" by (simp add: k_def unat_ucast_u32)
  have k32: "unat k < 2 ^ 32"
    using unsigned_less[of ioSize, where ?'a = nat] by (simp add: uk)
  have g_le: "unat got \<le> unat ioSize" using uk by (simp add: got_def min_def word_le_nat_alt)
  have lt: "got < k \<longleftrightarrow> unat got < unat ioSize" by (simp add: word_less_nat_alt uk)
  have lrd: "length rd = length buf" by (simp add: rd_def length_ring_read_dst)
  have len: "length buf' = length buf" by (simp add: buf'_def lrd length_memset_zero)
  have zero: "buf' ! j = 0" if "j < length buf" "2 * unat got \<le> j" "j < 2 * unat ioSize" for j
    using that g_le by (auto simp: buf'_def lt nth_memset_zero lrd)
  have past: "buf' ! j = buf ! j" if "j < length buf" "2 * unat ioSize \<le> j" for j
  proof -
    have "2 * unat got \<le> j" using that g_le by simp
    then have "rd ! j = buf ! j"
      unfolding rd_def got_def by (intro ring_read_dst_beyond[OF k32 that(1)])
    then show ?thesis using that g_le by (auto simp: buf'_def nth_memset_zero lrd)
  qed
  have front: "take (2 * unat got) buf' = take (2 * unat got) (ring_contents (inputRing drv))"
    if ok: "ring_ok (inputRing drv)" and l: "2 * unat ioSize \<le> length buf"
  proof -
    have inv: "head (inputRing drv) - tail (inputRing drv) \<le> RING_CAPACITY"
      using ok by (simp add: ring_ok_def)
    have l': "2 * unat got \<le> length buf" using l g_le by simp
    have "take (2 * unat got) rd = take (2 * unat got) (ring_contents (inputRing drv))"
      unfolding rd_def got_def
      by (rule ring_read_output[OF inv]) (use l' in \<open>simp add: got_def\<close>)
    moreover have "take (2 * unat got) buf' = take (2 * unat got) rd"
      by (rule nth_equalityI) (auto simp: buf'_def lrd length_memset_zero nth_memset_zero)
    ultimately show ?thesis by simp
  qed
  have res: "driver_DoIOOperation (Some drv) kObjectID_InputDevice
      kAudioServerPlugInIOOperationReadInput ioSize buf =
     (kAudioHardwareNoError,
      Some (drv\<lparr>inputRing := fst (ring_read (inputRing drv) buf k)\<rparr>), buf')"
    by (simp add: read_input_result Let_def k_def[symmetric] got_def[symmetric]
        rd_def[symmetric] buf'_def)
  have general: "(case driver_DoIOOperation (Some drv) kObjectID_InputDevice
           kAudioServerPlugInIOOperationReadInput ioSize buf of
      (status, g, buf') \<Rightarrow>
        status = kAudioHardwareNoError
        \<and> length buf' = length buf
        \<and> (\<forall>j<length buf.
              2 * unat (min (ucast ioSize) (head (inputRing drv) - tail (inputRing drv))) \<le> j
              \<and> j < 2 * unat ioSize \<longrightarrow> buf' ! j = 0)
        \<and> (\<forall>j<length buf. 2 * unat ioSize \<le> j \<longrightarrow> buf' ! j = buf ! j)
        \<and> (ring_ok (inputRing drv) \<and> 2 * unat ioSize \<le> length buf \<longrightarrow>
              take (2 * unat (min (ucast ioSize) (head (inputRing drv) - tail (inputRing drv)))) buf' =
              take (2 * unat (min (ucast ioSize) (head (inputRing drv) - tail (inputRing drv))))
                (ring_contents (inputRing drv))))"
    unfolding res k_def[symmetric] got_def[symmetric]
    using len zero past front by simp
  have empty: "driver_DoIOOperation (Some drv) kObjectID_InputDevice
          kAudioServerPlugInIOOperationReadInput 512 buf =
        (kAudioHardwareNoError, Some drv, replicate 1024 0)"
    if e: "head (inputRing drv) = tail (inputRing drv)" and l: "length buf = 1024"
  proof -
    have z: "memset_zero buf 0 4096 = replicate 1024 0"
      by (rule nth_equalityI) (simp_all add: length_memset_zero nth_memset_zero l)
    show ?thesis
      using e by (simp add: read_input_result ring_read_min Let_def z)
  qed
  show ?thesis using general empty by blast
qed

theorem read_input_zero_fill_witness:
  "ring_ok (inputRing initialized_driver)
   \<and> 2 * unat (2 :: u32) \<le> length [5, 6, 7, 8 :: sample]
   \<and> fst (driver_DoIOOperation (Some initialized_driver)
        kObjectID_InputDevice kAudioServerPlugInIOOperationReadInput 2 [5, 6, 7, 8])
       = kAudioHardwareNoError
   \<and> snd (snd (driver_DoIOOperation (Some initialized_driver)
        kObjectID_InputDevice kAudioServerPlugInIOOperationReadInput 2 [5, 6, 7, 8])) ! 3 = 0
   \<and> head (inputRing initialized_driver) = tail (inputRing initialized_driver)
   \<and> length (replicate 1024 (1 :: sample)) = 1024
   \<and> driver_DoIOOperation (Some initialized_driver)
        kObjectID_InputDevice kAudioServerPlugInIOOperationReadInput 512 (replicate 1024 1)
       = (kAudioHardwareNoError, Some initialized_driver, replicate 1024 0)"
proof -
  define d where "d = initialized_driver"
  have e: "head (inputRing d) = tail (inputRing d)"
    by (simp add: d_def initialized_driver_def ring_init_def)
  have ok: "ring_ok (inputRing d)"
    by (simp add: d_def initialized_driver_def ring_init_ok)
  have g: "min (ucast (2 :: u32)) (head (inputRing d) - tail (inputRing d)) = (0 :: u64)"
    by (simp add: e)
  note t = read_input_zero_fill[where drv = d and ioSize = 2 and buf = "[5, 6, 7, 8]"]
  note u = read_input_zero_fill[where drv = d and ioSize = 2 and buf = "replicate 1024 1"]
  have a: "fst (driver_DoIOOperation (Some d) kObjectID_InputDevice
        kAudioServerPlugInIOOperationReadInput 2 [5, 6, 7, 8]) = kAudioHardwareNoError"
    using t by (simp add: split_beta)
  have "\<forall>j<4. j < 4 \<longrightarrow> snd (snd (driver_DoIOOperation (Some d) kObjectID_InputDevice
        kAudioServerPlugInIOOperationReadInput 2 [5, 6, 7, 8])) ! j = 0"
    using t unfolding g by (simp add: split_beta)
  then have b: "snd (snd (driver_DoIOOperation (Some d) kObjectID_InputDevice
        kAudioServerPlugInIOOperationReadInput 2 [5, 6, 7, 8])) ! 3 = 0"
    by simp
  have c: "driver_DoIOOperation (Some d) kObjectID_InputDevice
        kAudioServerPlugInIOOperationReadInput 512 (replicate 1024 1)
       = (kAudioHardwareNoError, Some d, replicate 1024 0)"
    using u e by simp
  show ?thesis
    using a b c e ok unfolding d_def by simp
qed

text \<open>
  Claim C10. For every initialized driver state and every pair of object id and
  operation other than (output device, write-mix) and (input device, read-input),
  \<open>driver_DoIOOperation\<close> returns success and leaves the whole driver state, both rings
  with their indices and samples included, and \<open>ioMainBuffer\<close> unchanged.
\<close>

theorem other_io_operations_no_effect:
  assumes "\<not> (oid = kObjectID_OutputDevice \<and> opID = kAudioServerPlugInIOOperationWriteMix)"
    and "\<not> (oid = kObjectID_InputDevice \<and> opID = kAudioServerPlugInIOOperationReadInput)"
  shows "driver_DoIOOperation (Some drv) oid opID ioSize ioMainBuffer =
         (kAudioHardwareNoError, Some drv, ioMainBuffer)"
  using assms
  by (auto simp: driver_DoIOOperation_def is_output_device_def is_input_device_def)

theorem other_io_operations_no_effect_witness:
  "\<not> (kObjectID_OutputDevice = kObjectID_OutputDevice
       \<and> kAudioServerPlugInIOOperationReadInput = kAudioServerPlugInIOOperationWriteMix)
   \<and> \<not> (kObjectID_OutputDevice = kObjectID_InputDevice
       \<and> kAudioServerPlugInIOOperationReadInput = kAudioServerPlugInIOOperationReadInput)
   \<and> driver_DoIOOperation (Some initialized_driver) kObjectID_OutputDevice
        kAudioServerPlugInIOOperationReadInput 512 [1, 2] =
      (kAudioHardwareNoError, Some initialized_driver, [1, 2])"
proof -
  have h1: "\<not> (kObjectID_OutputDevice = kObjectID_OutputDevice
       \<and> kAudioServerPlugInIOOperationReadInput = kAudioServerPlugInIOOperationWriteMix)"
    by simp
  have h2: "\<not> (kObjectID_OutputDevice = kObjectID_InputDevice
       \<and> kAudioServerPlugInIOOperationReadInput = kAudioServerPlugInIOOperationReadInput)"
    by (simp add: kObjectID_OutputDevice_def kObjectID_InputDevice_def)
  show ?thesis
    using h1 h2 other_io_operations_no_effect[OF h1 h2, of initialized_driver 512 "[1, 2]"] by simp
qed

section \<open>Framed reads\<close>

lemma unat_ucast_u8_u16: "unat (ucast (w :: u8) :: u16) = unat w"
proof -
  have "unat w < 2 ^ 8" using unsigned_less[of w, where ?'a = nat] by simp
  then have "unat w < 2 ^ 16" by simp
  then show ?thesis
    by (simp add: unsigned_ucast_eq take_bit_nat_eq_self)
qed

lemma be16_unat:
  fixes h0 h1 :: u8
  shows "unat ((push_bit 8 (ucast h0 :: u16)) OR ucast h1) = 256 * unat h0 + unat h1"
proof -
  have disj: "push_bit 8 (ucast h0 :: u16) AND ucast h1 = 0"
    by (rule bit_eqI) (auto simp: bit_simps dest: bit_imp_le_length)
  have h0: "unat h0 < 256" using unsigned_less[of h0, where ?'a = nat] by simp
  have h1: "unat h1 < 256" using unsigned_less[of h1, where ?'a = nat] by simp
  have "push_bit 8 (ucast h0 :: u16) OR ucast h1 = push_bit 8 (ucast h0) + ucast h1"
    by (rule disjunctive_add_eq_or[OF disj, symmetric])
  also have "\<dots> = ucast h0 * 256 + ucast h1"
    by (simp add: push_bit_eq_mult)
  finally have "unat ((push_bit 8 (ucast h0 :: u16)) OR ucast h1)
      = unat (ucast h0 * 256 + ucast h1 :: u16)" by simp
  also have "\<dots> = (unat h0 * 256 + unat h1) mod 2 ^ 16"
    by (simp add: unat_word_ariths unat_ucast_u8_u16 mod_add_left_eq)
  also have "\<dots> = 256 * unat h0 + unat h1"
    using h0 h1 by simp
  finally show ?thesis .
qed

lemma sys_read_fail:
  assumes "sys_read s n = (r, bs, s')" and "r \<le> 0" and "0 < n"
  shows "stream_bytes s = []"
  using assms
  by (cases "(s, n)" rule: sys_read.cases) (auto simp: Let_def min_def split: if_splits)

lemma sys_read_ok:
  assumes "sys_read s n = (r, bs, s')" and "\<not> r \<le> 0"
  shows "bs \<noteq> [] \<and> length bs \<le> n \<and> stream_bytes s = bs @ stream_bytes s'"
  using assms
  by (cases "(s, n)" rule: sys_read.cases)
     (auto simp: Let_def min_def split: if_splits)

lemma read_loop_short:
  "length got < need \<Longrightarrow> length (stream_bytes s) < need - length got \<Longrightarrow>
   read_loop s need got = None"
proof (induction s need got rule: read_loop.induct)
  case (1 s need got)
  obtain r bs s' where sr: "sys_read s (need - length got) = (r, bs, s')"
    by (cases "sys_read s (need - length got)") auto
  show ?case
  proof (cases "r \<le> 0")
    case True
    then show ?thesis using "1.prems" sr by (simp add: read_loop.simps[of s need got])
  next
    case False
    from sys_read_ok[OF sr False]
    have bs: "bs \<noteq> []" "length bs \<le> need - length got"
      and st: "stream_bytes s = bs @ stream_bytes s'" by auto
    have lt: "length (got @ bs) < need" using "1.prems" st by simp
    have sh: "length (stream_bytes s') < need - length (got @ bs)"
      using "1.prems" st by simp
    have "read_loop s' need (got @ bs) = None"
      using "1.IH"[OF "1.prems"(1) sr[symmetric] refl False lt sh] .
    then show ?thesis
      using "1.prems" sr False by (simp add: read_loop.simps[of s need got])
  qed
qed

lemma read_loop_enough:
  "need - length got \<le> length (stream_bytes s) \<Longrightarrow>
   \<exists>s'. read_loop s need got = Some (got @ take (need - length got) (stream_bytes s), s')
        \<and> stream_bytes s' = drop (need - length got) (stream_bytes s)"
proof (induction s need got rule: read_loop.induct)
  case (1 s need got)
  show ?case
  proof (cases "length got < need")
    case full: False
    then show ?thesis by (simp add: read_loop.simps[of s need got])
  next
    case more: True
    obtain r bs s' where sr: "sys_read s (need - length got) = (r, bs, s')"
      by (cases "sys_read s (need - length got)") auto
    have pos: "0 < need - length got" using more by simp
    have nf: "\<not> r \<le> 0"
    proof
      assume "r \<le> 0"
      from sys_read_fail[OF sr this pos] "1.prems" more show False by simp
    qed
    from sys_read_ok[OF sr nf]
    have bs: "bs \<noteq> []" "length bs \<le> need - length got"
      and st: "stream_bytes s = bs @ stream_bytes s'" by auto
    have en: "need - length (got @ bs) \<le> length (stream_bytes s')"
      using "1.prems" st by simp
    from "1.IH"[OF more sr[symmetric] refl nf en]
    obtain s2 where r2: "read_loop s' need (got @ bs) =
        Some ((got @ bs) @ take (need - length (got @ bs)) (stream_bytes s'), s2)"
      and d2: "stream_bytes s2 = drop (need - length (got @ bs)) (stream_bytes s')"
      by blast
    have t: "bs @ take (need - length (got @ bs)) (stream_bytes s')
        = take (need - length got) (stream_bytes s)"
      using bs by (simp add: st)
    have d: "drop (need - length (got @ bs)) (stream_bytes s')
        = drop (need - length got) (stream_bytes s)"
      using bs by (simp add: st)
    have "read_loop s need got = read_loop s' need (got @ bs)"
      using more sr nf by (simp add: read_loop.simps[of s need got])
    then show ?thesis using r2 d2 t d by (intro exI[of _ s2]) simp
  qed
qed

lemma read_loop_iff:
  "read_loop s need [] = None \<longleftrightarrow> length (stream_bytes s) < need"
proof
  assume n: "read_loop s need [] = None"
  show "length (stream_bytes s) < need"
  proof (rule ccontr)
    assume "\<not> length (stream_bytes s) < need"
    then have "need - length ([] :: u8 list) \<le> length (stream_bytes s)" by simp
    from read_loop_enough[OF this] n show False by auto
  qed
next
  assume "length (stream_bytes s) < need"
  then show "read_loop s need [] = None"
    using read_loop_short[of "[]" need s] by simp
qed

lemma framed_read_stream:
  "framed_read s bufsize =
     (if length (stream_bytes s) < 2 then None
      else if wire_length (stream_bytes s) = 0 \<or> int (wire_length (stream_bytes s)) > bufsize
      then None
      else if length (stream_bytes s) < 2 + wire_length (stream_bytes s) then None
      else Some (of_nat (wire_length (stream_bytes s)),
                 take (wire_length (stream_bytes s)) (drop 2 (stream_bytes s)),
                 snd (snd (the (framed_read s bufsize)))))"
  and framed_read_rest:
  "framed_read s bufsize = Some (len, buf, s') \<Longrightarrow>
     stream_bytes s' = drop (2 + unat len) (stream_bytes s)"
proof -
  define bs where "bs = stream_bytes s"
  define L where "L = wire_length bs"
  show "framed_read s bufsize =
     (if length (stream_bytes s) < 2 then None
      else if wire_length (stream_bytes s) = 0 \<or> int (wire_length (stream_bytes s)) > bufsize
      then None
      else if length (stream_bytes s) < 2 + wire_length (stream_bytes s) then None
      else Some (of_nat (wire_length (stream_bytes s)),
                 take (wire_length (stream_bytes s)) (drop 2 (stream_bytes s)),
                 snd (snd (the (framed_read s bufsize)))))"
   and "framed_read s bufsize = Some (len, buf, s') \<Longrightarrow>
     stream_bytes s' = drop (2 + unat len) (stream_bytes s)"
  proof (atomize (full), cases "length bs < 2")
    case True
    then have "read_loop s 2 [] = None" by (simp add: read_loop_iff bs_def)
    then show "(framed_read s bufsize =
     (if length (stream_bytes s) < 2 then None
      else if wire_length (stream_bytes s) = 0 \<or> int (wire_length (stream_bytes s)) > bufsize
      then None
      else if length (stream_bytes s) < 2 + wire_length (stream_bytes s) then None
      else Some (of_nat (wire_length (stream_bytes s)),
                 take (wire_length (stream_bytes s)) (drop 2 (stream_bytes s)),
                 snd (snd (the (framed_read s bufsize)))))) \<and>
      (framed_read s bufsize = Some (len, buf, s') \<longrightarrow>
     stream_bytes s' = drop (2 + unat len) (stream_bytes s))"
      using True by (simp add: framed_read_def bs_def)
  next
    case False
    then have "2 - length ([] :: u8 list) \<le> length (stream_bytes s)" by (simp add: bs_def)
    from read_loop_enough[OF this]
    obtain s1 where r1: "read_loop s 2 [] = Some (take 2 bs, s1)"
      and d1: "stream_bytes s1 = drop 2 bs" by (auto simp: bs_def)
    have h0: "take 2 bs ! 0 = bs ! 0" and h1: "take 2 bs ! 1 = bs ! 1" by simp_all
    define len' :: u16 where "len' = (push_bit 8 (ucast (bs ! 0) :: u16)) OR ucast (bs ! 1)"
    have ul: "unat len' = L" by (simp add: len'_def be16_unat L_def wire_length_def)
    have z: "len' = 0 \<longleftrightarrow> L = 0" using ul by (simp add: unat_eq_0[symmetric])
    have ui: "uint len' = int L" using ul by (simp flip: ul)
    have ol: "of_nat L = len'" by (simp flip: ul)
    have fr0: "framed_read s bufsize =
        (if len' = 0 \<or> uint len' > bufsize then None
         else (case read_loop s1 (unat len') [] of
                 None \<Rightarrow> None
               | Some (buf, s2) \<Rightarrow> Some (len', buf, s2)))"
      by (simp only: framed_read_def r1 option.case prod.case h0 h1 Let_def len'_def)
    show "(framed_read s bufsize =
     (if length (stream_bytes s) < 2 then None
      else if wire_length (stream_bytes s) = 0 \<or> int (wire_length (stream_bytes s)) > bufsize
      then None
      else if length (stream_bytes s) < 2 + wire_length (stream_bytes s) then None
      else Some (of_nat (wire_length (stream_bytes s)),
                 take (wire_length (stream_bytes s)) (drop 2 (stream_bytes s)),
                 snd (snd (the (framed_read s bufsize)))))) \<and>
      (framed_read s bufsize = Some (len, buf, s') \<longrightarrow>
     stream_bytes s' = drop (2 + unat len) (stream_bytes s))"
    proof (cases "L = 0 \<or> int L > bufsize")
      case True
      then show ?thesis
        using False
        by (simp add: fr0 z ui bs_def[symmetric] L_def[symmetric])
    next
      case ok: False
      show ?thesis
      proof (cases "length bs < 2 + L")
        case True
        then have "length (drop 2 bs) < L" using ok False by auto
        then have "read_loop s1 L [] = None" by (simp add: read_loop_iff d1)
        then show ?thesis
          using False ok True
          by (simp add: fr0 z ui ul bs_def[symmetric] L_def[symmetric])
      next
        case en: False
        then have "L - length ([] :: u8 list) \<le> length (stream_bytes s1)" by (simp add: d1)
        from read_loop_enough[OF this]
        obtain s2 where r2: "read_loop s1 L [] = Some (take L (drop 2 bs), s2)"
          and d2: "stream_bytes s2 = drop L (drop 2 bs)" by (auto simp: d1)
        have fr: "framed_read s bufsize = Some (len', take L (drop 2 bs), s2)"
          using ok by (simp add: fr0 z ui ul r2)
        show ?thesis
          using False ok en d2 ul
          by (auto simp: fr bs_def[symmetric] L_def[symmetric] ol add.commute)
      qed
    qed
  qed
qed

lemma framed_read_None_iff:
  "framed_read s bufsize = None \<longleftrightarrow>
     length (stream_bytes s) < 2
     \<or> wire_length (stream_bytes s) = 0
     \<or> bufsize < int (wire_length (stream_bytes s))
     \<or> length (stream_bytes s) < 2 + wire_length (stream_bytes s)"
  by (subst framed_read_stream) auto

lemma framed_read_Some:
  assumes "framed_read s bufsize = Some (len, buf, s')"
  shows "unat len = wire_length (stream_bytes s)"
    and "buf = take (wire_length (stream_bytes s)) (drop 2 (stream_bytes s))"
    and "stream_bytes s' = drop (2 + wire_length (stream_bytes s)) (stream_bytes s)"
    and "1 \<le> wire_length (stream_bytes s)"
    and "int (wire_length (stream_bytes s)) \<le> bufsize"
    and "2 + wire_length (stream_bytes s) \<le> length (stream_bytes s)"
proof -
  have n: "framed_read s bufsize \<noteq> None" using assms by simp
  then have c: "\<not> length (stream_bytes s) < 2" "wire_length (stream_bytes s) \<noteq> 0"
    "\<not> bufsize < int (wire_length (stream_bytes s))"
    "\<not> length (stream_bytes s) < 2 + wire_length (stream_bytes s)"
    by (simp_all add: framed_read_None_iff)
  have e: "Some (len, buf, s') = Some (of_nat (wire_length (stream_bytes s)),
                 take (wire_length (stream_bytes s)) (drop 2 (stream_bytes s)),
                 snd (snd (the (framed_read s bufsize))))"
    using framed_read_stream[of s bufsize] c assms by simp
  have hb: "unat (stream_bytes s ! 0) < 256" "unat (stream_bytes s ! 1) < 256"
    using unsigned_less[of "stream_bytes s ! 0", where ?'a = nat]
      unsigned_less[of "stream_bytes s ! 1", where ?'a = nat] by simp_all
  then have "wire_length (stream_bytes s) < 2 ^ 16" by (simp add: wire_length_def)
  then show "unat len = wire_length (stream_bytes s)"
    using e by (simp add: unat_of_nat)
  then show "stream_bytes s' = drop (2 + wire_length (stream_bytes s)) (stream_bytes s)"
    using framed_read_rest[OF assms] by simp
  show "buf = take (wire_length (stream_bytes s)) (drop 2 (stream_bytes s))"
    using e by simp
  show "1 \<le> wire_length (stream_bytes s)" using c by simp
  show "int (wire_length (stream_bytes s)) \<le> bufsize" using c by simp
  show "2 + wire_length (stream_bytes s) \<le> length (stream_bytes s)" using c by simp
qed

lemma wire_length_header:
  assumes "n < 65536"
  shows "wire_length ([of_nat (n div 256), of_nat (n mod 256)] @ rest) = n"
proof -
  have "n div 256 < 256" using assms by simp
  then have a: "unat (of_nat (n div 256) :: u8) = n div 256"
    by (simp add: unat_of_nat)
  have b: "unat (of_nat (n mod 256) :: u8) = n mod 256"
    by (simp add: unat_of_nat)
  show ?thesis by (simp add: wire_length_def a b)
qed

lemma framed_read_frame:
  assumes "1 \<le> length payload" and "length payload \<le> 1500"
    and "stream_bytes s =
         [of_nat (length payload div 256), of_nat (length payload mod 256)] @ payload @ rest"
  shows "\<exists>s'. framed_read s OPUS_MAX_PACKET = Some (of_nat (length payload), payload, s')
              \<and> stream_bytes s' = rest"
proof -
  have wl: "wire_length (stream_bytes s) = length payload"
    unfolding assms(3) by (rule wire_length_header) (use assms(2) in simp)
  have ln: "length (stream_bytes s) = 2 + length payload + length rest"
    by (simp add: assms(3))
  have "framed_read s OPUS_MAX_PACKET \<noteq> None"
    using assms(1,2) by (auto simp: framed_read_None_iff wl OPUS_MAX_PACKET_def ln)
  then obtain len buf s' where r: "framed_read s OPUS_MAX_PACKET = Some (len, buf, s')"
    by (cases "framed_read s OPUS_MAX_PACKET") auto
  have "unat len = length payload" using framed_read_Some(1)[OF r] wl by simp
  then have l: "len = of_nat (length payload)"
    using assms(2) by (simp add: word_unat_eq_iff unat_of_nat)
  have b: "buf = payload" using framed_read_Some(2)[OF r] by (simp add: wl) (simp add: assms(3))
  have d: "stream_bytes s' = rest"
    using framed_read_Some(3)[OF r] by (simp add: wl) (simp add: assms(3))
  show ?thesis using r l b d by simp
qed

text \<open>
  Claim C9. With the bytes the stream delivers before its first failure or end,
  \<open>framed_read\<close> with the buffer size 1500 the ingress worker passes fails exactly when
  the transport fails (fewer than 2 header bytes, or fewer than \<open>L\<close> payload bytes
  after them) or the big-endian length \<open>L\<close> of the header violates \<open>1 \<le> L \<le> 1500\<close>;
  the ingress worker then breaks out of its loop to reconnect, and only then. For every
  payload of 1 to 1500 bytes that follows its two-byte length in the stream, however
  the bytes are split over \<^verbatim>\<open>read\<close> calls, the read succeeds and returns exactly that
  length and that payload, leaving the rest of the stream. A successful read always
  returns a length in range and as many payload bytes.
\<close>

theorem framed_read_fails_iff:
  "(framed_read s OPUS_MAX_PACKET = None \<longleftrightarrow>
      length (stream_bytes s) < 2
      \<or> wire_length (stream_bytes s) < 1
      \<or> 1500 < wire_length (stream_bytes s)
      \<or> length (stream_bytes s) < 2 + wire_length (stream_bytes s))
   \<and> (input_transport_thread_read s = Break_reconnect \<longleftrightarrow>
        framed_read s OPUS_MAX_PACKET = None)
   \<and> (1 \<le> length payload \<and> length payload \<le> 1500
        \<and> stream_bytes s =
            [of_nat (length payload div 256), of_nat (length payload mod 256)] @ payload @ rest
        \<longrightarrow> (\<exists>s'. framed_read s OPUS_MAX_PACKET = Some (of_nat (length payload), payload, s')
                   \<and> stream_bytes s' = rest))
   \<and> (framed_read s OPUS_MAX_PACKET = Some (len, buf, s') \<longrightarrow>
        unat len = wire_length (stream_bytes s)
        \<and> 1 \<le> unat len \<and> unat len \<le> 1500
        \<and> buf = take (unat len) (drop 2 (stream_bytes s))
        \<and> length buf = unat len
        \<and> stream_bytes s' = drop (2 + unat len) (stream_bytes s))"
proof -
  have 1: "framed_read s OPUS_MAX_PACKET = None \<longleftrightarrow>
      length (stream_bytes s) < 2
      \<or> wire_length (stream_bytes s) < 1
      \<or> 1500 < wire_length (stream_bytes s)
      \<or> length (stream_bytes s) < 2 + wire_length (stream_bytes s)"
    by (auto simp: framed_read_None_iff OPUS_MAX_PACKET_def)
  have 2: "input_transport_thread_read s = Break_reconnect \<longleftrightarrow>
        framed_read s OPUS_MAX_PACKET = None"
    by (simp add: input_transport_thread_read_def split: option.splits)
  have 3: "1 \<le> length payload \<and> length payload \<le> 1500
        \<and> stream_bytes s =
            [of_nat (length payload div 256), of_nat (length payload mod 256)] @ payload @ rest
        \<longrightarrow> (\<exists>s'. framed_read s OPUS_MAX_PACKET = Some (of_nat (length payload), payload, s')
                   \<and> stream_bytes s' = rest)"
    using framed_read_frame[of payload s rest] by blast
  have 4: "framed_read s OPUS_MAX_PACKET = Some (len, buf, s') \<longrightarrow>
        unat len = wire_length (stream_bytes s)
        \<and> 1 \<le> unat len \<and> unat len \<le> 1500
        \<and> buf = take (unat len) (drop 2 (stream_bytes s))
        \<and> length buf = unat len
        \<and> stream_bytes s' = drop (2 + unat len) (stream_bytes s)"
  proof
    assume r: "framed_read s OPUS_MAX_PACKET = Some (len, buf, s')"
    note f = framed_read_Some[OF r]
    show "unat len = wire_length (stream_bytes s)
        \<and> 1 \<le> unat len \<and> unat len \<le> 1500
        \<and> buf = take (unat len) (drop 2 (stream_bytes s))
        \<and> length buf = unat len
        \<and> stream_bytes s' = drop (2 + unat len) (stream_bytes s)"
      using f by (simp add: OPUS_MAX_PACKET_def)
  qed
  show ?thesis using 1 2 3 4 by blast
qed

theorem framed_read_fails_iff_witness:
  "1 \<le> length [10, 20, 30 :: u8] \<and> length [10, 20, 30 :: u8] \<le> 1500
   \<and> stream_bytes [Data [0, 3, 10], Data [20, 30, 99]] =
       [of_nat (length [10, 20, 30 :: u8] div 256), of_nat (length [10, 20, 30 :: u8] mod 256)]
       @ [10, 20, 30] @ [99]
   \<and> (\<exists>s'. framed_read [Data [0, 3, 10], Data [20, 30, 99]] OPUS_MAX_PACKET =
              Some (3, [10, 20, 30], s') \<and> stream_bytes s' = [99])
   \<and> framed_read [Data [0, 0, 7]] OPUS_MAX_PACKET = None
   \<and> input_transport_thread_read [Data [0, 0, 7]] = Break_reconnect
   \<and> framed_read [Data [5, 221], Data (replicate 1501 0)] OPUS_MAX_PACKET = None
   \<and> framed_read [Data [0], Data [2, 1], Err, Data [1]] OPUS_MAX_PACKET = None"
proof -
  have h: "1 \<le> length [10, 20, 30 :: u8] \<and> length [10, 20, 30 :: u8] \<le> 1500
   \<and> stream_bytes [Data [0, 3, 10], Data [20, 30, 99]] =
       [of_nat (length [10, 20, 30 :: u8] div 256), of_nat (length [10, 20, 30 :: u8] mod 256)]
       @ [10, 20, 30] @ [99]"
    by simp
  have a: "\<exists>s'. framed_read [Data [0, 3, 10], Data [20, 30, 99]] OPUS_MAX_PACKET =
              Some (3, [10, 20, 30], s') \<and> stream_bytes s' = [99]"
    using h framed_read_fails_iff[where s = "[Data [0, 3, 10], Data [20, 30, 99]]"
        and payload = "[10, 20, 30]" and rest = "[99]"]
    by simp
  have b: "framed_read [Data [0, 0, 7]] OPUS_MAX_PACKET = None"
    using framed_read_fails_iff[where s = "[Data [0, 0, 7]]"] by (simp add: wire_length_def)
  have c: "input_transport_thread_read [Data [0, 0, 7]] = Break_reconnect"
    using framed_read_fails_iff[where s = "[Data [0, 0, 7]]"] b by simp
  have d: "framed_read [Data [5, 221], Data (replicate 1501 0)] OPUS_MAX_PACKET = None"
    using framed_read_fails_iff[where s = "[Data [5, 221], Data (replicate 1501 0)]"]
    by (simp add: wire_length_def)
  have e: "framed_read [Data [0], Data [2, 1], Err, Data [1]] OPUS_MAX_PACKET = None"
    using framed_read_fails_iff[where s = "[Data [0], Data [2, 1], Err, Data [1]]"]
    by (simp add: wire_length_def)
  show ?thesis using h a b c d e by blast
qed

section \<open>Volume controls: set and get\<close>

lemma load_store_volPtr: "load_volPtr b (store_volPtr b v drv) = v"
  by (simp add: load_volPtr_def store_volPtr_def)

lemma set_scalar_result:
  assumes "is_volume oid" and "4 \<le> unat inSize"
  shows "driver_SetPropertyData powf drv oid kAudioLevelControlPropertyScalarValue inSize v =
         (kAudioHardwareNoError,
          store_volPtr (oid = kObjectID_OutputVolume)
            (if v < 0 then 0 else if 1 < v then 1 else v) drv)"
  using assms by (simp add: driver_SetPropertyData_def Let_def)

lemma set_decibel_result:
  assumes "is_volume oid" and "4 \<le> unat inSize"
  shows "driver_SetPropertyData powf drv oid kAudioLevelControlPropertyDecibelValue inSize db =
         (kAudioHardwareNoError,
          store_volPtr (oid = kObjectID_OutputVolume)
            (db_to_scalar powf (if db < - 96 then - 96 else if 0 < db then 0 else db)) drv)"
  using assms
  by (simp add: driver_SetPropertyData_def Let_def VOLUME_MIN_DB_def VOLUME_MAX_DB_def)

lemma get_scalar_result:
  assumes "is_volume oid" and "4 \<le> unat outSz"
  shows "driver_GetPropertyData log10f powf drv oid kAudioLevelControlPropertyScalarValue outSz x =
         Some (kAudioHardwareNoError, Some 4,
               Float32_data (load_volPtr (oid = kObjectID_OutputVolume) drv))"
  using assms by (simp add: driver_GetPropertyData_def Let_def WRITE_PROPERTY_def)

text \<open>
  Claim C7. For a volume control and calls whose data size is at least that of a
  \<^verbatim>\<open>Float32\<close>: setting the scalar to \<open>v\<close> and then getting the scalar returns \<open>v\<close>
  clamped to \<open>[0, 1]\<close>, hence exactly \<open>v\<close> for \<open>v\<close> in \<open>[0, 1]\<close> and the nearest
  endpoint otherwise (1.0 after setting 1.5); setting the decibel value to anything at
  or below -96, such as -200, and then getting the scalar returns 0.0. Only comparisons
  and stores of the value are involved, so the result does not depend on the C library.
\<close>

theorem volume_set_get_clamped:
  assumes "is_volume oid" and "4 \<le> unat inSize" and "4 \<le> unat outSz"
  shows "fst (driver_SetPropertyData powf drv oid kAudioLevelControlPropertyScalarValue inSize v)
           = kAudioHardwareNoError
    \<and> driver_GetPropertyData log10f powf
          (snd (driver_SetPropertyData powf drv oid kAudioLevelControlPropertyScalarValue inSize v))
          oid kAudioLevelControlPropertyScalarValue outSz x
        = Some (kAudioHardwareNoError, Some 4,
                Float32_data (if v < 0 then 0 else if 1 < v then 1 else v))
    \<and> (0 \<le> v \<and> v \<le> 1 \<longrightarrow>
          driver_GetPropertyData log10f powf
            (snd (driver_SetPropertyData powf drv oid kAudioLevelControlPropertyScalarValue inSize v))
            oid kAudioLevelControlPropertyScalarValue outSz x
          = Some (kAudioHardwareNoError, Some 4, Float32_data v))
    \<and> driver_GetPropertyData log10f powf
          (snd (driver_SetPropertyData powf drv oid kAudioLevelControlPropertyScalarValue inSize
                  (3 / 2)))
          oid kAudioLevelControlPropertyScalarValue outSz x
        = Some (kAudioHardwareNoError, Some 4, Float32_data 1)
    \<and> fst (driver_SetPropertyData powf drv oid kAudioLevelControlPropertyDecibelValue inSize db)
           = kAudioHardwareNoError
    \<and> (db \<le> - 96 \<longrightarrow>
          driver_GetPropertyData log10f powf
            (snd (driver_SetPropertyData powf drv oid kAudioLevelControlPropertyDecibelValue inSize
                    db))
            oid kAudioLevelControlPropertyScalarValue outSz x
          = Some (kAudioHardwareNoError, Some 4, Float32_data 0))
    \<and> driver_GetPropertyData log10f powf
          (snd (driver_SetPropertyData powf drv oid kAudioLevelControlPropertyDecibelValue inSize
                  (- 200)))
          oid kAudioLevelControlPropertyScalarValue outSz x
        = Some (kAudioHardwareNoError, Some 4, Float32_data 0)"
  using assms
  by (simp add: set_scalar_result set_decibel_result get_scalar_result load_store_volPtr
      db_to_scalar_def VOLUME_MIN_DB_def)

theorem volume_set_get_clamped_witness:
  "is_volume kObjectID_OutputVolume \<and> 4 \<le> unat (4 :: u32) \<and> (0 :: rat) \<le> 1 / 4
   \<and> (1 / 4 :: rat) \<le> 1 \<and> (- 200 :: rat) \<le> - 96
   \<and> driver_GetPropertyData (\<lambda>a. a) (\<lambda>a b. a)
         (snd (driver_SetPropertyData (\<lambda>a b. a) initialized_driver kObjectID_OutputVolume
                 kAudioLevelControlPropertyScalarValue 4 (1 / 4)))
         kObjectID_OutputVolume kAudioLevelControlPropertyScalarValue 4 0
       = Some (kAudioHardwareNoError, Some 4, Float32_data (1 / 4))
   \<and> driver_GetPropertyData (\<lambda>a. a) (\<lambda>a b. a)
         (snd (driver_SetPropertyData (\<lambda>a b. a) initialized_driver kObjectID_OutputVolume
                 kAudioLevelControlPropertyDecibelValue 4 (- 200)))
         kObjectID_OutputVolume kAudioLevelControlPropertyScalarValue 4 0
       = Some (kAudioHardwareNoError, Some 4, Float32_data 0)"
proof -
  have h1: "is_volume kObjectID_OutputVolume" by (simp add: is_volume_def)
  have h2: "4 \<le> unat (4 :: u32)" by simp
  note t = volume_set_get_clamped[OF h1 h2 h2, of "\<lambda>a b. a" initialized_driver "1 / 4"
      "\<lambda>a. a" 0 "- 200"]
  show ?thesis using h1 h2 t by simp
qed

text \<open>
  The two conversions at the lower end of the range, whatever the C library computes:
  -96 dB converts to the scalar 0 and the scalar 0 converts back to -96 dB.
\<close>

lemma volume_conversion_lower_bound:
  "db_to_scalar powf VOLUME_MIN_DB = 0"
  "scalar_to_db log10f 0 = VOLUME_MIN_DB"
  "scalar_to_db log10f (db_to_scalar powf VOLUME_MIN_DB) = VOLUME_MIN_DB"
  by (simp_all add: db_to_scalar_def scalar_to_db_def)

section \<open>The sample clock\<close>

















section \<open>The egress conversion\<close>

lemma floor_rat_numeral: "\<lfloor>numeral a / numeral b :: rat\<rfloor> = numeral a div numeral b"
  by (metis floor_divide_of_int_eq of_int_numeral)

lemma ceiling_rat_numeral: "\<lceil>numeral a / numeral b :: rat\<rceil> = - (- numeral a div numeral b)"
  by (metis ceiling_divide_eq_div of_int_numeral)

lemma bitlen_2: "bitlen 2 = 2"
  by (simp add: bitlen.simps)

lemma bitlen_12287: "bitlen 12287 = 14"
  by (simp add: bitlen.simps)

lemma ilog2_three_eighths: "ilog2 (3 / 8) = - 2"
  by (simp add: ilog2_def bitlen_2 ceiling_rat_numeral)

lemma ilog2_sample: "ilog2 (98301 / 8) = 13"
  by (simp add: ilog2_def bitlen_12287 floor_rat_numeral)

lemma round32_three_eighths: "round32 (3 / 8) = 3 / 8"
  by (simp add: round32_def fp_round_def ilog2_three_eighths pow2_def round_even_def
      floor_rat_numeral)

lemma round32_sample: "round32 (98301 / 8) = 98301 / 8"
  by (simp add: round32_def fp_round_def ilog2_sample pow2_def round_even_def floor_rat_numeral)

lemma round32_zero: "round32 0 = 0"
  by (simp add: round32_def fp_round_def)

lemma truncz_range:
  assumes "- 32768 \<le> s" and "s \<le> 32767"
  shows "- 32768 \<le> truncz s \<and> truncz s \<le> 32767"
proof (cases "0 \<le> s")
  case True
  then have "0 \<le> \<lfloor>s\<rfloor>" by simp
  moreover have "\<lfloor>s\<rfloor> \<le> 32767" using assms(2) by (simp add: floor_le_iff)
  ultimately show ?thesis using True by (simp add: truncz_def)
next
  case False
  then have "\<lceil>s\<rceil> \<le> 0" by (simp add: ceiling_le_iff)
  moreover have "- 32768 \<le> \<lceil>s\<rceil>" using assms(1) by (simp add: le_ceiling_iff)
  ultimately show ?thesis using False by (simp add: truncz_def)
qed

lemma sint_word_of_int_16:
  assumes "- 32768 \<le> k" and "k \<le> 32767"
  shows "sint (word_of_int k :: u16) = k"
proof -
  have "signed_take_bit 15 k = k"
    by (rule signed_take_bit_int_eq_self) (use assms in simp_all)
  then show ?thesis by (simp add: sint_sbintrunc')
qed

lemma clamp_ifs:
  fixes s :: rat
  shows "(let s1 = (if s > 32767 then 32767 else s);
              s2 = (if s1 < - 32768 then - 32768 else s1) in s2)
         = max (- 32768) (min 32767 s)"
  by (simp add: Let_def max_def min_def)

lemma pcm16_of_float_value:
  "sint (pcm16_of_float x gain) =
   truncz (max (- 32768) (min 32767 (fmul (fmul x gain) 32767)))"
proof -
  define c where "c = max (- 32768) (min 32767 (fmul (fmul x gain) 32767))"
  have r: "- 32768 \<le> c" "c \<le> 32767" by (simp_all add: c_def)
  have "pcm16_of_float x gain = word_of_int (truncz c)"
    unfolding pcm16_of_float_def c_def by (simp add: Let_def max_def min_def)
  then show ?thesis
    using truncz_range[OF r] by (simp add: sint_word_of_int_16 c_def)
qed

lemma pcm16_of_float_muted: "pcm16_of_float x 0 = 0"
  by (simp add: pcm16_of_float_def fmul_def round32_zero Let_def truncz_def)

text \<open>
  Claim C5, amended. In the egress codec step, for every input sample \<open>x\<close> and every
  snapshot of volume and mute, with \<open>g = 0\<close> if mute is set and \<open>g\<close> the volume
  otherwise, the emitted 16-bit sample is the single-precision product
  \<open>(x \<sqdot> g) \<sqdot> 32767\<close> clamped to \<open>[-32768, 32767]\<close> with its fraction dropped (the C
  conversion truncates toward zero; it does not round to nearest). The sample always
  fits 16 bits, and a muted step emits zeros.
\<close>

theorem egress_sample_truncated:
  "length (output_apply_volume drv pcm) = length pcm
   \<and> (\<forall>i<length pcm.
         sint (output_apply_volume drv pcm ! i) =
         truncz (max (- 32768) (min 32767
           (fmul (fmul (pcm ! i) (if outputMute drv \<noteq> 0 then 0 else outputVolume drv)) 32767)))
         \<and> - 32768 \<le> sint (output_apply_volume drv pcm ! i)
         \<and> sint (output_apply_volume drv pcm ! i) \<le> 32767)
   \<and> (outputMute drv \<noteq> 0 \<longrightarrow> (\<forall>i<length pcm. output_apply_volume drv pcm ! i = 0))"
proof -
  have "- 32768 \<le> sint (pcm16_of_float x g) \<and> sint (pcm16_of_float x g) \<le> 32767" for x g
    unfolding pcm16_of_float_value by (rule truncz_range) simp_all
  then show ?thesis
    by (simp add: output_apply_volume_def Let_def pcm16_of_float_value pcm16_of_float_muted)
qed

theorem egress_sample_truncated_witness:
  "(0 :: nat) < length [3 / 8 :: rat]
   \<and> sint (output_apply_volume initialized_driver [3 / 8] ! 0) = 12287
   \<and> outputMute (initialized_driver\<lparr>outputMute := 1\<rparr>) \<noteq> 0
   \<and> output_apply_volume (initialized_driver\<lparr>outputMute := 1\<rparr>) [3 / 8] ! 0 = 0"
proof -
  have v: "truncz (max (- 32768) (min 32767 (fmul (fmul (3 / 8) 1) 32767))) = 12287"
    by (simp add: fmul_def round32_three_eighths round32_sample truncz_def floor_rat_numeral)
  have a: "sint (output_apply_volume initialized_driver [3 / 8] ! 0) = 12287"
    using egress_sample_truncated[of initialized_driver "[3 / 8]"] v
    by (simp add: initialized_driver_def)
  have b: "output_apply_volume (initialized_driver\<lparr>outputMute := 1\<rparr>) [3 / 8] ! 0 = 0"
    using egress_sample_truncated[of "initialized_driver\<lparr>outputMute := 1\<rparr>" "[3 / 8]"]
    by simp
  show ?thesis using a b by simp
qed

text \<open>
  The claim as stated, with \<open>round\<close>, fails on the sample 0.375 at full volume: every
  intermediate value is exact in single precision, the product is 12287.625, and the
  code emits 12287 where rounding gives 12288.
\<close>

theorem egress_sample_round_counterexample:
  "sint (output_apply_volume initialized_driver [3 / 8] ! 0) = 12287
   \<and> spec_pcm16 (3 / 8) (outputVolume initialized_driver)
        (outputMute initialized_driver \<noteq> 0) = 12288"
proof -
  have a: "sint (pcm16_of_float (3 / 8) 1) = 12287"
    by (simp add: pcm16_of_float_value fmul_def round32_three_eighths round32_sample truncz_def
        floor_rat_numeral)
  have b: "spec_pcm16 (3 / 8) 1 False = 12288"
    by (simp add: spec_pcm16_def round_def floor_rat_numeral)
  show ?thesis
    using a b by (simp add: output_apply_volume_def initialized_driver_def)
qed

section \<open>Volume conversions: the decibel round trip\<close>

subsection \<open>The error of one rounding\<close>

lemma bitlen_upper: "n < 2 ^ bitlen n"
proof (induction n rule: less_induct)
  case (less n)
  show ?case
  proof (cases "n = 0")
    case True
    then show ?thesis by (simp add: bitlen.simps[of 0])
  next
    case False
    then have "n div 2 < n" by simp
    then have "n div 2 < 2 ^ bitlen (n div 2)" by (rule less.IH)
    then have "n < 2 * 2 ^ bitlen (n div 2)" by linarith
    then show ?thesis using False by (simp add: bitlen.simps[of n])
  qed
qed

lemma bitlen_lower: "0 < n \<Longrightarrow> 2 ^ (bitlen n - 1) \<le> n"
proof (induction n rule: less_induct)
  case (less n)
  show ?case
  proof (cases "n div 2 = 0")
    case True
    then have "n = 1" using less.prems by (simp add: div_eq_0_iff)
    then show ?thesis by (simp add: bitlen.simps[of "Suc 0"] bitlen.simps[of 0])
  next
    case False
    then have p: "0 < n div 2" by simp
    have "n div 2 < n" using less.prems by simp
    then have "2 ^ (bitlen (n div 2) - 1) \<le> n div 2" using p by (rule less.IH)
    then have "2 * 2 ^ (bitlen (n div 2) - 1) \<le> n" by linarith
    moreover have "0 < bitlen (n div 2)" using p by (simp add: bitlen.simps[of "n div 2"])
    ultimately show ?thesis
      using less.prems by (simp add: bitlen.simps[of n] flip: power_Suc)
  qed
qed

lemma pow2_pos: "0 < pow2 k"
  by (simp add: pow2_def)

lemma pow2_power_int: "pow2 k = power_int 2 k"
  by (simp add: pow2_def power_int_def power_one_over)

lemma pow2_diff: "pow2 (a - b) = pow2 a / pow2 b"
  by (simp add: pow2_power_int power_int_diff)

lemma pow2_mono: "a \<le> b \<Longrightarrow> pow2 a \<le> pow2 b"
  by (simp add: pow2_power_int power_int_increasing)

lemma pow2_nat: "pow2 (int n) = 2 ^ n"
  by (simp add: pow2_def)

lemma pow2_neg_nat: "pow2 (- int n) = 1 / 2 ^ n"
  by (cases "n = 0") (simp_all add: pow2_def)

lemma ilog2_lower:
  assumes "0 < q"
  shows "pow2 (ilog2 q) \<le> q"
proof (cases "1 \<le> q")
  case True
  define n where "n = nat \<lfloor>q\<rfloor>"
  have n1: "0 < n" using True by (simp add: n_def)
  have il: "ilog2 q = int (bitlen n - 1)"
    using True n1 bitlen_upper[of n]
    by (cases "bitlen n") (simp_all add: ilog2_def n_def)
  have "(2 :: rat) ^ (bitlen n - 1) \<le> of_nat n"
    using bitlen_lower[OF n1] by (metis of_nat_le_iff of_nat_numeral of_nat_power)
  also have "of_nat n = (of_int \<lfloor>q\<rfloor> :: rat)" using True by (simp add: n_def)
  also have "\<dots> \<le> q" by simp
  finally show ?thesis by (simp add: il pow2_nat)
next
  case False
  define m where "m = nat (\<lceil>1 / q\<rceil> - 1)"
  have il: "ilog2 q = - int (bitlen m)" using False by (simp add: ilog2_def m_def)
  have c1: "1 \<le> \<lceil>1 / q\<rceil>" using assms by (simp add: le_ceiling_iff)
  have "1 / q \<le> of_int \<lceil>1 / q\<rceil>" by simp
  also have "of_int \<lceil>1 / q\<rceil> = (of_nat (m + 1) :: rat)"
    using c1 by (simp add: m_def)
  also have "(of_nat (m + 1) :: rat) \<le> 2 ^ bitlen m"
  proof -
    have "m + 1 \<le> 2 ^ bitlen m" using bitlen_upper[of m] by simp
    then show ?thesis by (metis of_nat_le_iff of_nat_numeral of_nat_power)
  qed
  finally have "1 / q \<le> 2 ^ bitlen m" .
  then have "1 / 2 ^ bitlen m \<le> q"
    using assms by (simp add: field_simps)
  then show ?thesis by (simp add: il pow2_neg_nat)
qed

lemma round_even_error: "\<bar>of_int (round_even t) - t\<bar> \<le> 1 / 2"
proof -
  have "of_int \<lfloor>t\<rfloor> \<le> t" "t < of_int \<lfloor>t\<rfloor> + 1" by linarith+
  then show ?thesis
    by (auto simp: round_even_def Let_def abs_le_iff)
qed

lemma fp_round_error:
  "\<bar>fp_round p emin z - z\<bar> \<le> \<bar>z\<bar> * pow2 (- int p) + pow2 (emin - int p)"
proof (cases "z = 0")
  case True
  then show ?thesis using pow2_pos[of "emin - int p"] by (simp add: fp_round_def)
next
  case False
  define e where "e = max (ilog2 \<bar>z\<bar>) emin"
  define u where "u = pow2 (e - (int p - 1))"
  have u0: "0 < u" by (simp add: u_def pow2_pos)
  have fr: "fp_round p emin z = of_int (round_even (z / u)) * u"
    using False by (simp add: fp_round_def Let_def e_def u_def)
  have "of_int (round_even (z / u)) * u - z = (of_int (round_even (z / u)) - z / u) * u"
    using u0 by (simp add: left_diff_distrib)
  then have "\<bar>of_int (round_even (z / u)) * u - z\<bar> = \<bar>of_int (round_even (z / u)) - z / u\<bar> * u"
    using u0 by (simp add: abs_mult)
  also have "\<dots> \<le> 1 / 2 * u"
    using round_even_error[of "z / u"] u0 by (intro mult_right_mono) simp_all
  also have "1 / 2 * u = pow2 (e - int p)"
  proof -
    have "pow2 (e - (int p - 1)) = pow2 ((e - int p) + 1)" by (simp add: algebra_simps)
    also have "\<dots> = pow2 (e - int p) * 2"
      by (simp add: pow2_power_int power_int_add)
    finally show ?thesis by (simp add: u_def)
  qed
  finally have err: "\<bar>fp_round p emin z - z\<bar> \<le> pow2 (e - int p)" by (simp add: fr)
  have "pow2 (e - int p) \<le> \<bar>z\<bar> * pow2 (- int p) + pow2 (emin - int p)"
  proof (cases "emin \<le> ilog2 \<bar>z\<bar>")
    case True
    then have e: "e = ilog2 \<bar>z\<bar>" by (simp add: e_def)
    have "pow2 (e - int p) = pow2 (ilog2 \<bar>z\<bar>) * pow2 (- int p)"
      unfolding e by (simp add: pow2_power_int power_int_diff power_int_minus field_simps)
    also have "\<dots> \<le> \<bar>z\<bar> * pow2 (- int p)"
      using ilog2_lower[of "\<bar>z\<bar>"] False pow2_pos[of "- int p"]
      by (intro mult_right_mono) simp_all
    finally show ?thesis using pow2_pos[of "emin - int p"] by linarith
  next
    case False
    then have "e = emin" by (simp add: e_def)
    moreover have "0 \<le> \<bar>z\<bar> * pow2 (- int p)" using pow2_pos[of "- int p"] by simp
    ultimately show ?thesis by simp
  qed
  with err show ?thesis by linarith
qed

lemma round32_error: "\<bar>round32 z - z\<bar> \<le> \<bar>z\<bar> / 2 ^ 24 + 1 / 2 ^ 150"
proof -
  have a: "pow2 (- int 24) = 1 / 2 ^ 24" by (rule pow2_neg_nat)
  have "(- 126 :: int) - int 24 = - int 150" by simp
  then have b: "pow2 (- 126 - int 24) = 1 / 2 ^ 150" by (simp only: pow2_neg_nat)
  show ?thesis
    using fp_round_error[of 24 "- 126" z] unfolding a b round32_def by simp
qed

lemma real_of_rat_abs: "real_of_rat \<bar>q\<bar> = \<bar>real_of_rat q\<bar>"
proof (cases "0 \<le> q")
  case True
  then have "0 \<le> real_of_rat q" by (simp add: zero_le_of_rat_iff)
  then show ?thesis using True by simp
next
  case False
  then have "real_of_rat q < 0" by (simp add: of_rat_less_0_iff)
  then show ?thesis using False by (simp add: of_rat_minus)
qed

lemma round32_error_real:
  "\<bar>real_of_rat (round32 z) - real_of_rat z\<bar> \<le> \<bar>real_of_rat z\<bar> / 2 ^ 24 + 1 / 2 ^ 150"
proof -
  have "real_of_rat \<bar>round32 z - z\<bar> \<le> real_of_rat (\<bar>z\<bar> / 2 ^ 24 + 1 / 2 ^ 150)"
    using round32_error[of z] by (simp only: of_rat_less_eq)
  then show ?thesis
    by (simp only: real_of_rat_abs of_rat_diff of_rat_add of_rat_divide of_rat_power
        of_rat_numeral_eq of_rat_1)
qed

subsection \<open>A relative error under the logarithm\<close>

lemma ln_10_ge_1: "1 \<le> ln (10 :: real)"
proof -
  have "exp (1 :: real) \<le> 10" using exp_le by linarith
  then show ?thesis by (simp add: ln_ge_iff)
qed

lemma ln_near_one:
  fixes r :: real
  assumes "1 - 1 / 2 ^ 20 \<le> r" and "r \<le> 1 + 1 / 2 ^ 20"
  shows "\<bar>ln r\<bar> \<le> 2 / 2 ^ 20"
proof -
  have rpos: "0 < r" using assms(1) by simp
  have up: "ln r \<le> 1 / 2 ^ 20"
    using ln_le_minus_one[OF rpos] assms(2) by linarith
  have "- (1 / 2 ^ 20) - 2 * (1 / 2 ^ 20)\<^sup>2 \<le> ln (1 - 1 / 2 ^ 20 :: real)"
    by (rule ln_one_minus_pos_lower_bound) simp_all
  moreover have "ln (1 - 1 / 2 ^ 20 :: real) \<le> ln r"
    using assms(1) rpos by simp
  moreover have "2 * (1 / 2 ^ 20 :: real)\<^sup>2 \<le> 1 / 2 ^ 20" by (simp add: power2_eq_square)
  ultimately have lo: "- (2 / 2 ^ 20) \<le> ln r" by linarith
  show ?thesis using up lo by (simp add: abs_le_iff)
qed

lemma log10_relative:
  fixes S A :: real
  assumes A: "0 < A" and acc: "\<bar>S - A\<bar> \<le> A / 2 ^ 20"
  shows "0 < S" and "\<bar>log 10 S - log 10 A\<bar> \<le> 2 / 2 ^ 20"
proof -
  have "S - A \<le> A / 2 ^ 20" and "A - S \<le> A / 2 ^ 20"
    using acc by linarith+
  then have lo: "A * (1 - 1 / 2 ^ 20) \<le> S" and hi: "S \<le> A * (1 + 1 / 2 ^ 20)"
    by (simp_all add: algebra_simps)
  have "0 < A * (1 - 1 / 2 ^ 20)" using A by simp
  then show S: "0 < S" using lo by linarith
  define r where "r = S / A"
  have r1: "1 - 1 / 2 ^ 20 \<le> r" using lo A by (simp add: r_def field_simps)
  have r2: "r \<le> 1 + 1 / 2 ^ 20" using hi A by (simp add: r_def field_simps)
  have "log 10 S - log 10 A = log 10 r"
    using S A by (simp add: r_def log_divide)
  also have "\<dots> = ln r / ln 10" by (simp add: log_def)
  finally have e: "log 10 S - log 10 A = ln r / ln 10" .
  have "\<bar>ln r / ln 10\<bar> = \<bar>ln r\<bar> / ln 10" using ln_10_ge_1 by simp
  also have "\<dots> \<le> \<bar>ln r\<bar>"
    using ln_10_ge_1 by (simp add: divide_le_eq mult_le_cancel_left1)
  also have "\<dots> \<le> 2 / 2 ^ 20" by (rule ln_near_one[OF r1 r2])
  finally show "\<bar>log 10 S - log 10 A\<bar> \<le> 2 / 2 ^ 20" by (simp only: e)
qed

subsection \<open>The round trip\<close>

lemma round_trip_interior:
  assumes x1: "- 96 < x" and x2: "x \<le> 0" and acc: "libm_accurate_at log10f powf x"
  shows "\<bar>scalar_to_db log10f (db_to_scalar powf x) - x\<bar> \<le> 1 / 10000"
proof -
  define y where "y = fdiv x 20"
  define s where "s = powf 10 y"
  define l where "l = log10f s"
  define db0 where "db0 = fmul 20 l"
  define X where "X = real_of_rat x"
  define Y where "Y = real_of_rat y"
  define S where "S = real_of_rat s"
  define L where "L = real_of_rat l"
  define D0 where "D0 = real_of_rat db0"
  have c96: "real_of_rat (- 96) = - 96" by simp
  have "real_of_rat (- 96) < real_of_rat x" using x1 by (simp only: of_rat_less)
  then have X1: "- 96 < X" by (simp only: c96 X_def)
  have "real_of_rat x \<le> real_of_rat 0" using x2 by (simp only: of_rat_less_eq)
  then have X2: "X \<le> 0" by (simp add: X_def)
  have q: "real_of_rat (x / 20) = X / 20" by (simp add: X_def of_rat_divide)
  have e1: "\<bar>Y - X / 20\<bar> \<le> \<bar>X / 20\<bar> / 2 ^ 24 + 1 / 2 ^ 150"
    using round32_error_real[of "x / 20"] by (simp only: q Y_def y_def fdiv_def)
  have A: "0 < 10 powr Y" by simp
  have h1: "\<bar>S - 10 powr Y\<bar> \<le> 10 powr Y / 2 ^ 20"
    and h2: "\<bar>L - log 10 S\<bar> \<le> 1 / 2 ^ 20"
    using acc by (simp_all add: libm_accurate_at_def S_def s_def Y_def y_def L_def l_def)
  have Spos: "0 < S" by (rule log10_relative(1)[OF A h1])
  have "\<bar>log 10 S - log 10 (10 powr Y)\<bar> \<le> 2 / 2 ^ 20" by (rule log10_relative(2)[OF A h1])
  then have e2: "\<bar>log 10 S - Y\<bar> \<le> 2 / 2 ^ 20" by simp
  have m: "real_of_rat (20 * l) = 20 * L" by (simp add: L_def of_rat_mult)
  have e4: "\<bar>D0 - 20 * L\<bar> \<le> \<bar>20 * L\<bar> / 2 ^ 24 + 1 / 2 ^ 150"
    using round32_error_real[of "20 * l"] by (simp only: m D0_def db0_def fmul_def)
  define c1 :: real where "c1 = (96 / 20) / 2 ^ 24 + 1 / 2 ^ 150"
  define c2 :: real where "c2 = 3 / 2 ^ 20"
  define c3 :: real where "c3 = 97 / 2 ^ 24 + 1 / 2 ^ 150"
  have num: "20 * c2 + 20 * c1 + c3 \<le> 1 / 10000" and small: "20 * c2 + 20 * c1 \<le> 1"
    by (simp_all add: c1_def c2_def c3_def)
  have "\<bar>X / 20\<bar> \<le> 96 / 20" using X1 X2 by simp
  then have "\<bar>X / 20\<bar> / 2 ^ 24 \<le> (96 / 20) / 2 ^ 24" by (simp add: divide_right_mono)
  then have b1: "\<bar>Y - X / 20\<bar> \<le> c1" using e1 unfolding c1_def by linarith
  have "(2 / 2 ^ 20 + 1 / 2 ^ 20 :: real) = c2" by (simp add: c2_def)
  then have b2: "\<bar>L - Y\<bar> \<le> c2" using e2 h2 by linarith
  have b3: "\<bar>20 * L - X\<bar> \<le> 20 * c2 + 20 * c1"
    using b1 b2 by linarith
  have b4: "\<bar>20 * L\<bar> \<le> 97" using b3 small X1 X2 by linarith
  then have "\<bar>20 * L\<bar> / 2 ^ 24 \<le> 97 / 2 ^ 24" by (simp add: divide_right_mono)
  then have b5: "\<bar>D0 - 20 * L\<bar> \<le> c3" using e4 unfolding c3_def by linarith
  have R: "\<bar>D0 - X\<bar> \<le> 1 / 10000" using b3 b5 num by linarith
  have "real_of_rat \<bar>db0 - x\<bar> \<le> real_of_rat (1 / 10000)"
    using R by (simp add: real_of_rat_abs of_rat_diff D0_def X_def of_rat_divide)
  then have r: "\<bar>db0 - x\<bar> \<le> 1 / 10000" by (simp only: of_rat_less_eq)
  have spos: "0 < s" using Spos by (simp add: S_def zero_less_of_rat_iff)
  have d: "db_to_scalar powf x = s"
    using x1 by (simp add: db_to_scalar_def VOLUME_MIN_DB_def s_def y_def)
  have v: "scalar_to_db log10f s = (if db0 < - 96 then - 96 else db0)"
    using spos by (simp add: scalar_to_db_def VOLUME_MIN_DB_def Let_def db0_def l_def)
  show ?thesis
    unfolding d v using r x1 by (auto simp: abs_le_iff)
qed

lemma bitlen_1: "bitlen (Suc 0) = Suc 0"
  by (simp add: bitlen.simps[of "Suc 0"] bitlen.simps[of 0])

lemma bitlen_20: "bitlen 20 = 5"
  by (simp add: bitlen.simps)

lemma round32_minus_one: "round32 (- 1) = - 1"
  by (simp add: round32_def fp_round_def ilog2_def bitlen_1 pow2_def round_even_def)

lemma round32_minus_twenty: "round32 (- 20) = - 20"
  by (simp add: round32_def fp_round_def ilog2_def bitlen_20 pow2_def round_even_def)

lemma log10_tenth_float:
  "\<bar>- 1 - log 10 (13421773 / 134217728 :: real)\<bar> \<le> 1 / 2 ^ 20"
proof -
  have q: "(13421773 / 134217728 :: real) = (1 + 1 / 2 ^ 26) / 10" by simp
  have d: "log 10 (a / 10) = ln a / ln 10 - 1" if "0 < a" for a :: real
  proof -
    have "log 10 (a / 10) = log 10 a - log 10 10" using that by (simp add: log_divide)
    also have "\<dots> = ln a / ln 10 - 1" by (simp add: log_def)
    finally show ?thesis .
  qed
  have "log 10 ((1 + 1 / 2 ^ 26) / 10) = ln (1 + 1 / 2 ^ 26) / ln (10 :: real) - 1"
    by (rule d) simp
  then have e: "log 10 (13421773 / 134217728) - (- 1 :: real) = ln (1 + 1 / 2 ^ 26) / ln 10"
    unfolding q by linarith
  have lo: "0 \<le> ln (1 + 1 / 2 ^ 26 :: real)" by simp
  have hi: "ln (1 + 1 / 2 ^ 26 :: real) \<le> 1 / 2 ^ 26"
    by (rule ln_add_one_self_le_self) simp
  have "ln (1 + 1 / 2 ^ 26 :: real) / ln 10 \<le> ln (1 + 1 / 2 ^ 26)"
    using ln_10_ge_1 lo by (simp add: divide_le_eq mult_le_cancel_left1)
  moreover have "0 \<le> ln (1 + 1 / 2 ^ 26 :: real) / ln 10"
    using ln_10_ge_1 lo by simp
  moreover have "(1 / 2 ^ 26 :: real) \<le> 1 / 2 ^ 20" by simp
  ultimately have "\<bar>log 10 (13421773 / 134217728) - (- 1 :: real)\<bar> \<le> 1 / 2 ^ 20"
    unfolding e using hi by linarith
  then show ?thesis by linarith
qed

lemma libm_accurate_at_minus_twenty:
  "libm_accurate_at (\<lambda>s. - 1) (\<lambda>a b. 13421773 / 134217728) (- 20)"
proof -
  have r: "real_of_rat (13421773 / 134217728) = 13421773 / 134217728"
    by (simp add: of_rat_divide)
  have p: "10 powr (- 1 :: real) = 1 / 10" by (simp add: powr_minus_divide)
  show ?thesis
    unfolding libm_accurate_at_def fdiv_def
    using log10_tenth_float
    by (simp add: round32_minus_one r p)
qed

text \<open>
  Claim C8. For every \<open>x\<close> in \<open>[D_min, 0]\<close> with \<open>D_min = -96\<close> dB,
  \<open>scalar_to_db (db_to_scalar x)\<close> is within \<open>10^-4\<close> dB of \<open>x\<close>, the division by 20
  and the multiplication by 20 being rounded to single precision, provided the two C
  library calls made on the way are accurate: \<^verbatim>\<open>powf(10, x/20)\<close> is within the relative
  error \<open>2^-20\<close> of the power and \<^verbatim>\<open>log10f\<close> of that scalar is within \<open>2^-20\<close> of the
  logarithm (at least eight and at least two units in the last place of these results). At the
  boundary \<open>x = D_min\<close> no library call is made and the round trip is exact:
  \<open>db_to_scalar D_min = 0\<close> and \<open>scalar_to_db 0 = D_min\<close>.
\<close>

theorem volume_db_round_trip:
  assumes "VOLUME_MIN_DB \<le> x" and "x \<le> VOLUME_MAX_DB"
    and "VOLUME_MIN_DB < x \<longrightarrow> libm_accurate_at log10f powf x"
  shows "\<bar>scalar_to_db log10f (db_to_scalar powf x) - x\<bar> \<le> 1 / 10000
    \<and> db_to_scalar powf VOLUME_MIN_DB = 0
    \<and> scalar_to_db log10f 0 = VOLUME_MIN_DB
    \<and> scalar_to_db log10f (db_to_scalar powf VOLUME_MIN_DB) = VOLUME_MIN_DB"
proof -
  have "\<bar>scalar_to_db log10f (db_to_scalar powf x) - x\<bar> \<le> 1 / 10000"
  proof (cases "x = VOLUME_MIN_DB")
    case True
    then show ?thesis by (simp add: volume_conversion_lower_bound)
  next
    case False
    then have "- 96 < x" using assms(1) by (simp add: VOLUME_MIN_DB_def)
    moreover have "x \<le> 0" using assms(2) by (simp add: VOLUME_MAX_DB_def)
    moreover have "libm_accurate_at log10f powf x" using assms(1,3) False by simp
    ultimately show ?thesis by (rule round_trip_interior)
  qed
  then show ?thesis by (simp add: volume_conversion_lower_bound)
qed

theorem volume_db_round_trip_witness:
  "VOLUME_MIN_DB \<le> - 20 \<and> - 20 \<le> VOLUME_MAX_DB
   \<and> libm_accurate_at (\<lambda>s. - 1) (\<lambda>a b. 13421773 / 134217728) (- 20)
   \<and> db_to_scalar (\<lambda>a b. 13421773 / 134217728) (- 20) = 13421773 / 134217728
   \<and> scalar_to_db (\<lambda>s. - 1) (13421773 / 134217728) = - 20
   \<and> \<bar>scalar_to_db (\<lambda>s. - 1) (db_to_scalar (\<lambda>a b. 13421773 / 134217728) (- 20)) - (- 20)\<bar>
       \<le> 1 / 10000"
proof -
  have h1: "VOLUME_MIN_DB \<le> - 20" by (simp add: VOLUME_MIN_DB_def)
  have h2: "- 20 \<le> VOLUME_MAX_DB" by (simp add: VOLUME_MAX_DB_def)
  have h3: "VOLUME_MIN_DB < - 20 \<longrightarrow>
      libm_accurate_at (\<lambda>s. - 1) (\<lambda>a b. 13421773 / 134217728) (- 20)"
    by (simp add: libm_accurate_at_minus_twenty)
  have d: "db_to_scalar (\<lambda>a b. 13421773 / 134217728) (- 20) = 13421773 / 134217728"
    by (simp add: db_to_scalar_def VOLUME_MIN_DB_def)
  have s: "scalar_to_db (\<lambda>s. - 1) (13421773 / 134217728) = - 20"
    by (simp add: scalar_to_db_def VOLUME_MIN_DB_def fmul_def round32_minus_twenty)
  note t = volume_db_round_trip[OF h1 h2 h3]
  show ?thesis using h1 h2 libm_accurate_at_minus_twenty d s t by simp
qed

end
